theory Spec2Isabelle
  imports Main "HOL-Library.Word"
begin

section \<open>The streaming chat client of \<^verbatim>\<open>ChatInterface.jsx\<close>\<close>

text \<open>
  The theory embeds \<^verbatim>\<open>handleSubmit\<close> of
  \<^verbatim>\<open>src/frontend/src/components/ChatInterface.jsx\<close>: the guard on the input and
  the loading flag, the request, the read loop over the response body, the decoding of each
  chunk, its splitting into lines, the parsing of each \<^verbatim>\<open>data: \<close> line and the
  updates of the in-progress assistant message and of the \<^verbatim>\<open>messages\<close> state.

  What belongs to the JavaScript runtime and not to the repository is either modelled from its
  standard (\<^verbatim>\<open>TextDecoder\<close>, \<^verbatim>\<open>String.prototype.split\<close>,
  \<^verbatim>\<open>startsWith\<close>, \<^verbatim>\<open>trim\<close>, string conversion) or taken as a
  parameter (\<^verbatim>\<open>JSON.parse\<close> and the printing of numbers, in the record
  \<open>js_env\<close>). An updater function passed to \<^verbatim>\<open>setMessages\<close> is queued and run
  by React at the next render; a render can happen only while the handler is suspended at
  an \<^verbatim>\<open>await\<close>, and whether one happens there is a parameter too.
  \<^verbatim>\<open>e.preventDefault()\<close> and the logging of the inner \<^verbatim>\<open>catch\<close> change
  nothing of the state and are left out.
\<close>

subsection \<open>Strings and JSON values\<close>

text \<open>
  A JavaScript string is a sequence of UTF-16 code units; a chunk of the response body is a
  \<^verbatim>\<open>Uint8Array\<close>. \<open>js\<close> embeds an ASCII literal of the source.
\<close>

type_synonym byte = "8 word"
type_synonym jstring = "16 word list"

definition js :: "string \<Rightarrow> jstring" where
  "js s = map (\<lambda>c. of_nat (of_char c)) s"

text \<open>
  The values \<^verbatim>\<open>JSON.parse\<close> returns, and \<^verbatim>\<open>undefined\<close>, which reading
  an absent property gives. The type \<open>'n\<close> stands for the runtime's numbers (IEEE doubles),
  which the handler only ever prints. An object is the list of its own properties, with
  distinct keys.
\<close>

datatype 'n jsval =
    Undefined
  | Null
  | Bool bool
  | Num 'n
  | Str jstring
  | Arr "'n jsval list"
  | Obj "(jstring \<times> 'n jsval) list"

record 'n js_env =
  json_parse :: "jstring \<Rightarrow> 'n jsval option"
  number_to_string :: "'n \<Rightarrow> jstring"
  renders_at :: "nat \<Rightarrow> bool"

text \<open>
  \<open>json_parse env s = None\<close> stands for \<^verbatim>\<open>JSON.parse(s)\<close> throwing a
  \<^verbatim>\<open>SyntaxError\<close>. \<open>renders_at env k\<close> says whether React renders the component
  while the handler is suspended for the \<open>k\<close>-th time: suspension 0 is the
  \<^verbatim>\<open>await fetch\<close> of line 20, suspension \<open>k\<close> the \<open>k\<close>-th
  \<^verbatim>\<open>await reader.read()\<close> of line 38.

  \<open>get_prop v k\<close> is the property read \<^verbatim>\<open>v.k\<close> for the four names the handler
  reads (\<^verbatim>\<open>type\<close>, \<^verbatim>\<open>content\<close>, \<^verbatim>\<open>sources\<close>,
  \<^verbatim>\<open>error\<close>), none of which is defined on a prototype: \<open>None\<close> is the
  \<^verbatim>\<open>TypeError\<close> of reading a property of \<^verbatim>\<open>null\<close> or
  \<^verbatim>\<open>undefined\<close>.
\<close>

fun get_prop :: "'n jsval \<Rightarrow> jstring \<Rightarrow> 'n jsval option" where
  "get_prop Undefined k = None"
| "get_prop Null k = None"
| "get_prop (Obj kvs) k = Some (case map_of kvs k of None \<Rightarrow> Undefined | Some v \<Rightarrow> v)"
| "get_prop v k = Some Undefined"

text \<open>
  String conversion, as \<^verbatim>\<open>content += data.content\<close> and the template literal
  \<^verbatim>\<open>`Error: ${data.error}`\<close> apply it to a parsed value: a string is itself, an
  array is its elements joined by commas (\<^verbatim>\<open>null\<close> and \<^verbatim>\<open>undefined\<close>
  elements printing as nothing), an object is \<^verbatim>\<open>[object Object]\<close>. The
  conversion of an object calls its \<^verbatim>\<open>toString\<close>: a parsed object with an own
  property of that name has a value there that cannot be called, and the conversion throws
  a \<^verbatim>\<open>TypeError\<close>, which is \<open>None\<close>.
\<close>

fun join_comma :: "jstring list \<Rightarrow> jstring" where
  "join_comma [] = []"
| "join_comma [s] = s"
| "join_comma (s # t # ss) = s @ js '','' @ join_comma (t # ss)"

fun all_some :: "'a option list \<Rightarrow> 'a list option" where
  "all_some [] = Some []"
| "all_some (None # xs) = None"
| "all_some (Some x # xs) = map_option ((#) x) (all_some xs)"

fun to_string :: "('n \<Rightarrow> jstring) \<Rightarrow> 'n jsval \<Rightarrow> jstring option" where
  "to_string n2s Undefined = Some (js ''undefined'')"
| "to_string n2s Null = Some (js ''null'')"
| "to_string n2s (Bool b) = Some (if b then js ''true'' else js ''false'')"
| "to_string n2s (Num n) = Some (n2s n)"
| "to_string n2s (Str s) = Some s"
| "to_string n2s (Arr xs) =
     map_option join_comma
       (all_some (map (\<lambda>x. if x = Undefined \<or> x = Null then Some [] else to_string n2s x) xs))"
| "to_string n2s (Obj kvs) =
     (if js ''toString'' \<in> fst ` set kvs then None else Some (js ''[object Object]''))"

subsection \<open>Messages, the object store and the component state\<close>

text \<open>
  A message is a mutable object: \<^verbatim>\<open>{ role, content, sources }\<close>. The user message
  and the message of the \<^verbatim>\<open>catch\<close> block have no \<^verbatim>\<open>sources\<close>
  property, which reads as \<open>Undefined\<close>.

  The array held in the \<^verbatim>\<open>messages\<close> state contains references to such objects, and
  line 35 puts the in-progress object itself into it, so the objects the handler creates
  live in a store, \<open>heap\<close>. An element of the array is a reference into the store, or an
  object that an updater creates (the copy \<^verbatim>\<open>{ ...assistantMessage }\<close>, the message
  of the \<^verbatim>\<open>catch\<close> block): such an object is referenced from the array alone and is
  never written, so the array holds it by value.
\<close>

type_synonym addr = nat

record 'n message =
  role :: jstring
  content :: jstring
  sources :: "'n jsval"

datatype 'n entry = Ref addr | Copy "'n message"

text \<open>
  The updater functions of the source: \<^verbatim>\<open>prev => [...prev, x]\<close> of lines 15, 35 and
  73, and the updater of lines 51 to 55 and 60 to 64, which replaces the last element by a
  copy of the in-progress object.
\<close>

datatype 'n updater = Append "'n entry" | Replace_last addr

text \<open>
  \<open>messages\<close> is the array of the last render, \<open>pending\<close> the queue of the updaters
  passed to \<^verbatim>\<open>setMessages\<close> since. \<^verbatim>\<open>setInput\<close> and
  \<^verbatim>\<open>setLoading\<close> are passed values: \<open>input\<close> and \<open>loading\<close> hold the last
  value set.
\<close>

record 'n chat =
  heap :: "addr \<Rightarrow> 'n message"
  next_addr :: addr
  messages :: "'n entry list"
  pending :: "'n updater list"
  input :: jstring
  loading :: bool
  collection :: jstring
  conversationId :: jstring

text \<open>An object literal of the handler allocates a fresh object.\<close>

definition alloc :: "'n message \<Rightarrow> 'n chat \<Rightarrow> addr \<times> 'n chat" where
  "alloc m st =
     (next_addr st, st\<lparr>heap := (heap st)(next_addr st := m), next_addr := Suc (next_addr st)\<rparr>)"

text \<open>\<^verbatim>\<open>setMessages(f)\<close> queues the updater.\<close>

definition setMessages :: "'n updater \<Rightarrow> 'n chat \<Rightarrow> 'n chat" where
  "setMessages f st = st\<lparr>pending := pending st @ [f]\<rparr>"

text \<open>\<^verbatim>\<open>setMessages(prev => [...prev, x])\<close> for an object \<open>x\<close> of the store.\<close>

definition append_message :: "addr \<Rightarrow> 'n chat \<Rightarrow> 'n chat" where
  "append_message a st = setMessages (Append (Ref a)) st"

text \<open>
  Lines 51 to 55 and 60 to 64:
  \<^verbatim>\<open>setMessages(prev => { const newMessages = [...prev];
     newMessages[newMessages.length - 1] = { ...assistantMessage }; return newMessages })\<close>.
\<close>

definition publish :: "addr \<Rightarrow> 'n chat \<Rightarrow> 'n chat" where
  "publish am st = setMessages (Replace_last am) st"

text \<open>
  \<^verbatim>\<open>newMessages[newMessages.length - 1] = x\<close> on a copy of the array. On an empty array
  the index is \<open>-1\<close>, which sets a property that is no element: the array stays empty.
\<close>

definition replace_last :: "'a list \<Rightarrow> 'a \<Rightarrow> 'a list" where
  "replace_last xs x = (if xs = [] then [] else xs[length xs - 1 := x])"

text \<open>
  An updater runs at a render, on the array \<open>prev\<close> and the store \<open>h\<close> of that time: the
  spread of line 53 copies the in-progress object as it is then. A render runs the queue in
  order.
\<close>

fun run_updater :: "(addr \<Rightarrow> 'n message) \<Rightarrow> 'n updater \<Rightarrow> 'n entry list \<Rightarrow> 'n entry list" where
  "run_updater h (Append x) prev = prev @ [x]"
| "run_updater h (Replace_last am) prev = replace_last prev (Copy (h am))"

definition render :: "'n chat \<Rightarrow> 'n chat" where
  "render st =
     st\<lparr>messages := fold (run_updater (heap st)) (pending st) (messages st), pending := []\<rparr>"

text \<open>
  \<open>snapshot\<close> is what a reader of \<^verbatim>\<open>messages\<close> (the \<^verbatim>\<open>MessageList\<close>
  component) sees when the component renders in this state.
\<close>

fun look :: "(addr \<Rightarrow> 'n message) \<Rightarrow> 'n entry \<Rightarrow> 'n message" where
  "look h (Ref a) = h a"
| "look h (Copy m) = m"

definition snapshot :: "'n chat \<Rightarrow> 'n message list" where
  "snapshot st = map (look (heap st)) (messages (render st))"

text \<open>
  The shape of the array a render in this state gives: which elements are objects of the
  store, and which are copies.
\<close>

fun erase :: "'n entry \<Rightarrow> addr option" where
  "erase (Ref a) = Some a"
| "erase (Copy m) = None"

definition shown_refs :: "'n chat \<Rightarrow> addr option list" where
  "shown_refs st = map erase (messages (render st))"

text \<open>
  The objects a state refers to have been allocated. The in-progress object \<open>am\<close> is out
  of the array: no render is due and the array does not refer to it, as after the render
  that replaced the placeholder by a copy.
\<close>

fun updater_refs :: "'n updater \<Rightarrow> addr set" where
  "updater_refs (Append (Ref a)) = {a}"
| "updater_refs (Append (Copy m)) = {}"
| "updater_refs (Replace_last a) = {a}"

definition allocated :: "'n chat \<Rightarrow> bool" where
  "allocated st \<longleftrightarrow>
     (\<forall>a. Ref a \<in> set (messages st) \<longrightarrow> a < next_addr st)
     \<and> (\<forall>f\<in>set (pending st). \<forall>a\<in>updater_refs f. a < next_addr st)"

definition out_of_array :: "addr \<Rightarrow> 'n chat \<Rightarrow> bool" where
  "out_of_array am st \<longleftrightarrow> pending st = [] \<and> Ref am \<notin> set (messages st)"

text \<open>
  No line of the stream and no render writes the flag, the collection or the conversation
  id: two states agree on them.
\<close>

definition same_flags :: "'n chat \<Rightarrow> 'n chat \<Rightarrow> bool" where
  "same_flags st' st \<longleftrightarrow>
     loading st' = loading st \<and> collection st' = collection st
     \<and> conversationId st' = conversationId st"

subsection \<open>One line of the stream\<close>

text \<open>
  The three branches of lines 49 to 65, on the in-progress object \<open>am\<close>
  (\<^verbatim>\<open>assistantMessage\<close>). The event carries the value read from the payload:
  \<^verbatim>\<open>data.content\<close>, \<^verbatim>\<open>data.sources\<close>, \<^verbatim>\<open>data.error\<close>.
\<close>

datatype 'n stream_event = Token "'n jsval" | Sources "'n jsval" | Error "'n jsval"

fun apply_event :: "'n js_env \<Rightarrow> addr \<Rightarrow> 'n stream_event \<Rightarrow> 'n chat \<Rightarrow> 'n chat" where
  "apply_event env am (Token v) st =
     (case to_string (number_to_string env) v of
        None \<Rightarrow> st
      | Some s \<Rightarrow>
          publish am (st\<lparr>heap := (heap st)
            (am := (heap st am)\<lparr>content := content (heap st am) @ s\<rparr>)\<rparr>))"
| "apply_event env am (Sources v) st =
     st\<lparr>heap := (heap st)(am := (heap st am)\<lparr>sources := v\<rparr>)\<rparr>"
| "apply_event env am (Error v) st =
     (case to_string (number_to_string env) v of
        None \<Rightarrow> st
      | Some s \<Rightarrow>
          publish am (st\<lparr>heap := (heap st)
            (am := (heap st am)\<lparr>content := js ''Error: '' @ s\<rparr>)\<rparr>))"

text \<open>
  A conversion that throws at line 50 or 59 does so before the assignment and is caught at
  line 66: nothing is written and \<^verbatim>\<open>setMessages\<close> is not called. The events that
  reach \<^verbatim>\<open>setMessages\<close> (lines 51 and 60) are the others.
\<close>

fun publishes :: "'n js_env \<Rightarrow> 'n stream_event \<Rightarrow> bool" where
  "publishes env (Token v) \<longleftrightarrow> to_string (number_to_string env) v \<noteq> None"
| "publishes env (Sources v) \<longleftrightarrow> False"
| "publishes env (Error v) \<longleftrightarrow> to_string (number_to_string env) v \<noteq> None"

text \<open>
  Lines 45 to 49, 56, 58 and 66: a line is looked at only if it starts with
  \<^verbatim>\<open>data: \<close>; the payload is \<^verbatim>\<open>line.slice(6)\<close>; a payload that
  \<^verbatim>\<open>JSON.parse\<close> rejects, or that parses to \<^verbatim>\<open>null\<close>, throws inside the
  \<^verbatim>\<open>try\<close> and is logged by the \<^verbatim>\<open>catch\<close>; a \<^verbatim>\<open>type\<close> other than
  the three strings matches no branch.
\<close>

definition starts_with :: "jstring \<Rightarrow> jstring \<Rightarrow> bool" where
  "starts_with s p = (take (length p) s = p)"

definition payload_event :: "'n js_env \<Rightarrow> jstring \<Rightarrow> 'n stream_event option" where
  "payload_event env p =
     (case json_parse env p of
        None \<Rightarrow> None
      | Some data \<Rightarrow>
          (case get_prop data (js ''type'') of
             None \<Rightarrow> None
           | Some t \<Rightarrow>
               if t = Str (js ''token'') then map_option Token (get_prop data (js ''content''))
               else if t = Str (js ''sources'') then map_option Sources (get_prop data (js ''sources''))
               else if t = Str (js ''error'') then map_option Error (get_prop data (js ''error''))
               else None))"

definition parse_event :: "'n js_env \<Rightarrow> jstring \<Rightarrow> 'n stream_event option" where
  "parse_event env line =
     (if starts_with line (js ''data: '') then payload_event env (drop 6 line) else None)"

definition handle_line :: "'n js_env \<Rightarrow> addr \<Rightarrow> jstring \<Rightarrow> 'n chat \<Rightarrow> 'n chat" where
  "handle_line env am line st =
     (case parse_event env line of None \<Rightarrow> st | Some ev \<Rightarrow> apply_event env am ev st)"

text \<open>
  The lines the specification calls malformed, in its words: a line that does not carry the
  prefix, or whose payload fails to parse, or whose payload carries a discriminator that is
  none of \<^verbatim>\<open>token\<close>, \<^verbatim>\<open>sources\<close>, \<^verbatim>\<open>error\<close>.
\<close>

definition malformed :: "'n js_env \<Rightarrow> jstring \<Rightarrow> bool" where
  "malformed env line \<longleftrightarrow>
     \<not> starts_with line (js ''data: '')
     \<or> (case json_parse env (drop 6 line) of
          None \<Rightarrow> True
        | Some data \<Rightarrow>
            get_prop data (js ''type'') \<notin>
              {Some (Str (js ''token'')), Some (Str (js ''sources'')), Some (Str (js ''error''))})"

text \<open>The lines that reach \<^verbatim>\<open>setMessages\<close>.\<close>

definition publishing :: "'n js_env \<Rightarrow> jstring \<Rightarrow> bool" where
  "publishing env line \<longleftrightarrow>
     (case parse_event env line of None \<Rightarrow> False | Some ev \<Rightarrow> publishes env ev)"

subsection \<open>Decoding a chunk\<close>

text \<open>
  \<^verbatim>\<open>new TextDecoder()\<close> is a UTF-8 decoder, not fatal, not ignoring the byte order
  mark. Line 41 calls \<^verbatim>\<open>decoder.decode(value)\<close> without the option
  \<^verbatim>\<open>{stream: true}\<close>, so every call starts from a fresh decoder state and ends with
  the end of its input. The decoder is the Encoding Standard's: \<open>utf8_lead\<close> is its step
  for a byte read when no bytes are needed, \<open>utf8_byte\<close> the whole handler, a decoding error
  emitting U+FFFD. A byte that is not the continuation the state waits for is an error and
  is read again in the initial state.
\<close>

unbundle bit_operations_syntax

record utf8_state =
  code_point :: nat
  bytes_seen :: nat
  bytes_needed :: nat
  lower_boundary :: byte
  upper_boundary :: byte

definition utf8_init :: utf8_state where
  "utf8_init = \<lparr>code_point = 0, bytes_seen = 0, bytes_needed = 0,
     lower_boundary = 0x80, upper_boundary = 0xBF\<rparr>"

definition utf8_lead :: "byte \<Rightarrow> nat list \<times> utf8_state" where
  "utf8_lead b =
     (if b \<le> 0x7F then ([unat b], utf8_init)
      else if 0xC2 \<le> b \<and> b \<le> 0xDF then
        ([], utf8_init\<lparr>bytes_needed := 1, code_point := unat (b AND 0x1F)\<rparr>)
      else if 0xE0 \<le> b \<and> b \<le> 0xEF then
        ([], utf8_init\<lparr>lower_boundary := (if b = 0xE0 then 0xA0 else 0x80),
                       upper_boundary := (if b = 0xED then 0x9F else 0xBF),
                       bytes_needed := 2, code_point := unat (b AND 0xF)\<rparr>)
      else if 0xF0 \<le> b \<and> b \<le> 0xF4 then
        ([], utf8_init\<lparr>lower_boundary := (if b = 0xF0 then 0x90 else 0x80),
                       upper_boundary := (if b = 0xF4 then 0x8F else 0xBF),
                       bytes_needed := 3, code_point := unat (b AND 0x7)\<rparr>)
      else ([0xFFFD], utf8_init))"

text \<open>
  \<open>code_point s * 64 + unat (b AND 0x3F)\<close> is
  \<^verbatim>\<open>(code point << 6) | (byte & 0x3F)\<close>.
\<close>

definition utf8_byte :: "utf8_state \<Rightarrow> byte \<Rightarrow> nat list \<times> utf8_state" where
  "utf8_byte s b =
     (if bytes_needed s = 0 then utf8_lead b
      else if b < lower_boundary s \<or> upper_boundary s < b then
        (let (out, s') = utf8_lead b in (0xFFFD # out, s'))
      else
        (let cp = code_point s * 64 + unat (b AND 0x3F);
             seen = bytes_seen s + 1
         in if seen \<noteq> bytes_needed s then
              ([], s\<lparr>lower_boundary := 0x80, upper_boundary := 0xBF,
                      code_point := cp, bytes_seen := seen\<rparr>)
            else ([cp], utf8_init)))"

text \<open>At the end of the input, bytes still needed are one more error.\<close>

fun utf8_run :: "utf8_state \<Rightarrow> byte list \<Rightarrow> nat list" where
  "utf8_run s [] = (if bytes_needed s \<noteq> 0 then [0xFFFD] else [])"
| "utf8_run s (b # bs) = (let (out, s') = utf8_byte s b in out @ utf8_run s' bs)"

text \<open>
  The states \<open>utf8_lead\<close> leaves after the first byte \<open>n0\<close> of a sequence of three and of
  four bytes.
\<close>

definition lead3 :: "nat \<Rightarrow> utf8_state" where
  "lead3 n0 = utf8_init\<lparr>lower_boundary := (if n0 = 0xE0 then 0xA0 else 0x80),
                       upper_boundary := (if n0 = 0xED then 0x9F else 0xBF),
                       bytes_needed := 2, code_point := n0 mod 16\<rparr>"

definition lead4 :: "nat \<Rightarrow> utf8_state" where
  "lead4 n0 = utf8_init\<lparr>lower_boundary := (if n0 = 0xF0 then 0x90 else 0x80),
                       upper_boundary := (if n0 = 0xF4 then 0x8F else 0xBF),
                       bytes_needed := 3, code_point := n0 mod 8\<rparr>"

text \<open>A leading U+FEFF of the output of a call is dropped.\<close>

definition strip_bom :: "nat list \<Rightarrow> nat list" where
  "strip_bom cps = (case cps of [] \<Rightarrow> [] | c # cs \<Rightarrow> if c = 0xFEFF then cs else c # cs)"

text \<open>A code point becomes one UTF-16 code unit, or a surrogate pair.\<close>

definition utf16 :: "nat \<Rightarrow> jstring" where
  "utf16 cp =
     (if cp < 0x10000 then [of_nat cp]
      else [of_nat (0xD800 + (cp - 0x10000) div 0x400), of_nat (0xDC00 + (cp - 0x10000) mod 0x400)])"

definition text_decode :: "byte list \<Rightarrow> jstring" where
  "text_decode bytes = concat (map utf16 (strip_bom (utf8_run utf8_init bytes)))"

subsection \<open>Lines of a chunk\<close>

text \<open>
  \<^verbatim>\<open>chunk.split('\n')\<close>: the pieces between the newlines, a last piece after the last
  newline included; the empty string gives one empty piece.
\<close>

fun split_nl :: "jstring \<Rightarrow> jstring list" where
  "split_nl [] = [[]]"
| "split_nl (c # cs) =
     (if c = 0x0A then [] # split_nl cs
      else (case split_nl cs of [] \<Rightarrow> [[c]] | l # ls \<Rightarrow> (c # l) # ls))"

text \<open>Lines 41 to 70: the body of the read loop for one chunk \<^verbatim>\<open>value\<close>.\<close>

definition process_chunk :: "'n js_env \<Rightarrow> addr \<Rightarrow> byte list \<Rightarrow> 'n chat \<Rightarrow> 'n chat" where
  "process_chunk env am val st = fold (handle_line env am) (split_nl (text_decode val)) st"

subsection \<open>The handler\<close>

text \<open>
  \<^verbatim>\<open>String.prototype.trim\<close> removes white space and line terminators from both ends.
\<close>

definition js_whitespace :: "16 word \<Rightarrow> bool" where
  "js_whitespace c \<longleftrightarrow>
     c \<in> {0x09, 0x0A, 0x0B, 0x0C, 0x0D, 0x20, 0xA0, 0x1680, 0x2028, 0x2029, 0x202F, 0x205F,
          0x3000, 0xFEFF} \<or> (0x2000 \<le> c \<and> c \<le> 0x200A)"

definition js_trim :: "jstring \<Rightarrow> jstring" where
  "js_trim s = rev (dropWhile js_whitespace (rev (dropWhile js_whitespace s)))"

text \<open>
  What the network does with one request. \<open>Fetch_rejects msg\<close>: an exception with
  \<^verbatim>\<open>error.message = msg\<close> is thrown before line 33 (the \<^verbatim>\<open>fetch\<close> promise
  rejects, or the response has no body to read). \<open>Body chunks end\<close>: the reads deliver
  \<open>chunks\<close> in order, and then either \<^verbatim>\<open>done\<close> (\<open>end = None\<close>) or a rejection
  with message \<open>msg\<close> (\<open>end = Some msg\<close>). A body that neither ends nor fails is not
  an outcome of this type.
\<close>

datatype network = Fetch_rejects jstring | Body "byte list list" "jstring option"

record request =
  query :: jstring
  req_collection :: jstring
  conversation_id :: jstring
  use_rag :: bool

text \<open>
  Lines 73 to 76, the \<^verbatim>\<open>catch\<close> block: the updater appends a new object with
  the message.
\<close>

definition append_error :: "jstring \<Rightarrow> 'n chat \<Rightarrow> 'n chat" where
  "append_error msg st =
     setMessages (Append (Copy \<lparr>role = js ''assistant'', content = js ''Error: '' @ msg,
                                sources = Undefined\<rparr>)) st"

text \<open>Lines 33 and 35: the placeholder is allocated and the object itself is appended.\<close>

definition begin_stream :: "'n chat \<Rightarrow> addr \<times> 'n chat" where
  "begin_stream st =
     (let (am, st') = alloc \<lparr>role = js ''assistant'', content = [], sources = Arr []\<rparr> st
      in (am, append_message am st'))"

text \<open>The handler is suspended for the \<open>k\<close>-th time: React renders, or does not.\<close>

definition suspend :: "'n js_env \<Rightarrow> nat \<Rightarrow> 'n chat \<Rightarrow> 'n chat" where
  "suspend env k st = (if renders_at env k then render st else st)"

text \<open>
  Lines 37 to 71, from the \<open>k\<close>-th read on: each read suspends the handler; the last one
  returns \<^verbatim>\<open>done\<close> or rejects.
\<close>

fun read_loop :: "'n js_env \<Rightarrow> addr \<Rightarrow> nat \<Rightarrow> byte list list \<Rightarrow> 'n chat \<Rightarrow> 'n chat" where
  "read_loop env am k [] st = suspend env k st"
| "read_loop env am k (val # rest) st =
     read_loop env am (Suc k) rest (process_chunk env am val (suspend env k st))"

text \<open>
  What happens between line 35 and the end of the loop, as a trace: a line of a chunk is
  handled, or React renders. \<open>loop_steps\<close> is the trace of \<open>read_loop\<close>.
\<close>

datatype step = Line jstring | Render

fun do_step :: "'n js_env \<Rightarrow> addr \<Rightarrow> step \<Rightarrow> 'n chat \<Rightarrow> 'n chat" where
  "do_step env am (Line l) st = handle_line env am l st"
| "do_step env am Render st = render st"

fun loop_steps :: "'n js_env \<Rightarrow> nat \<Rightarrow> byte list list \<Rightarrow> step list" where
  "loop_steps env k [] = (if renders_at env k then [Render] else [])"
| "loop_steps env k (val # rest) =
     (if renders_at env k then [Render] else []) @ map Line (split_nl (text_decode val))
     @ loop_steps env (Suc k) rest"

text \<open>Lines 19 to 77.\<close>

definition run_request :: "'n js_env \<Rightarrow> network \<Rightarrow> 'n chat \<Rightarrow> 'n chat" where
  "run_request env net st =
     (let st0 = suspend env 0 st
      in case net of
           Fetch_rejects msg \<Rightarrow> append_error msg st0
         | Body chunks end \<Rightarrow>
             (let (am, st1) = begin_stream st0;
                  st2 = read_loop env am 1 chunks st1
              in case end of None \<Rightarrow> st2 | Some msg \<Rightarrow> append_error msg st2))"

text \<open>Lines 14 to 17: the user message is appended, the input cleared, the flag set.\<close>

definition accept_submit :: "'n chat \<Rightarrow> 'n chat" where
  "accept_submit st =
     (let (userMessage, st') = alloc \<lparr>role = js ''user'', content = input st,
                                       sources = Undefined\<rparr> st
      in (append_message userMessage st')\<lparr>input := [], loading := True\<rparr>)"

text \<open>
  Lines 10 to 80. The result is the requests sent and the state after the render that
  follows the return of the handler. The values of \<^verbatim>\<open>input\<close> and
  \<^verbatim>\<open>loading\<close> are those of the state the handler is called in.
\<close>

definition handleSubmit :: "'n js_env \<Rightarrow> network \<Rightarrow> 'n chat \<Rightarrow> 'n chat \<times> request list" where
  "handleSubmit env net st =
     (if js_trim (input st) = [] \<or> loading st then (st, [])
      else
        (let req = \<lparr>query = input st, req_collection = collection st,
                    conversation_id = conversationId st, use_rag = True\<rparr>;
             st' = run_request env net (accept_submit st)
         in (render (st'\<lparr>loading := False\<rparr>), [req])))"

subsection \<open>An environment: a parser of JSON texts\<close>

text \<open>
  The theorems below hold for every environment. Their instances on concrete streams need
  one: \<open>parse_json\<close> accepts the JSON grammar that \<^verbatim>\<open>JSON.parse\<close> accepts (white
  space, the six structural characters, strings with their escapes, numbers, the three
  literal names) and builds the value, a repeated key overwriting the earlier property. A
  number is kept as its literal text. The text is cut into tokens by a state machine that
  reads one code unit at a time; the tokens drive a stack of the open arrays and objects.
\<close>

datatype json_token =
    LBrace | RBrace | LBrack | RBrack | Colon | Comma
  | TString jstring | TNumber jstring | TTrue | TFalse | TNull

datatype number_part =
  After_minus | Zero | Int_digits | After_dot | Frac_digits | After_e | After_e_sign | Exp_digits

datatype lex_state =
    Between
  | In_string jstring
  | In_escape jstring
  | In_hex jstring nat nat
  | In_word jstring
  | In_number number_part jstring

definition is_digit :: "16 word \<Rightarrow> bool" where
  "is_digit c \<longleftrightarrow> 0x30 \<le> c \<and> c \<le> 0x39"

definition is_lower :: "16 word \<Rightarrow> bool" where
  "is_lower c \<longleftrightarrow> 0x61 \<le> c \<and> c \<le> 0x7A"

definition hex_value :: "16 word \<Rightarrow> nat option" where
  "hex_value c =
     (if 0x30 \<le> c \<and> c \<le> 0x39 then Some (unat c - 0x30)
      else if 0x41 \<le> c \<and> c \<le> 0x46 then Some (unat c - 0x37)
      else if 0x61 \<le> c \<and> c \<le> 0x66 then Some (unat c - 0x57)
      else None)"

definition escape_value :: "16 word \<Rightarrow> 16 word option" where
  "escape_value c =
     (if c = 0x22 \<or> c = 0x5C \<or> c = 0x2F then Some c
      else if c = 0x62 then Some 0x08
      else if c = 0x66 then Some 0x0C
      else if c = 0x6E then Some 0x0A
      else if c = 0x72 then Some 0x0D
      else if c = 0x74 then Some 0x09
      else None)"

text \<open>
  The grammar of a number:
  \<^verbatim>\<open>-? (0 | [1-9][0-9]*) (. [0-9]+)? ([eE] [+-]? [0-9]+)?\<close>.
\<close>

definition number_next :: "number_part \<Rightarrow> 16 word \<Rightarrow> number_part option" where
  "number_next p c =
     (case p of
        After_minus \<Rightarrow>
          if c = 0x30 then Some Zero else if is_digit c then Some Int_digits else None
      | Zero \<Rightarrow>
          if c = 0x2E then Some After_dot
          else if c = 0x65 \<or> c = 0x45 then Some After_e else None
      | Int_digits \<Rightarrow>
          if is_digit c then Some Int_digits
          else if c = 0x2E then Some After_dot
          else if c = 0x65 \<or> c = 0x45 then Some After_e else None
      | After_dot \<Rightarrow> if is_digit c then Some Frac_digits else None
      | Frac_digits \<Rightarrow>
          if is_digit c then Some Frac_digits
          else if c = 0x65 \<or> c = 0x45 then Some After_e else None
      | After_e \<Rightarrow>
          if c = 0x2B \<or> c = 0x2D then Some After_e_sign
          else if is_digit c then Some Exp_digits else None
      | After_e_sign \<Rightarrow> if is_digit c then Some Exp_digits else None
      | Exp_digits \<Rightarrow> if is_digit c then Some Exp_digits else None)"

definition number_complete :: "number_part \<Rightarrow> bool" where
  "number_complete p \<longleftrightarrow> p \<in> {Zero, Int_digits, Frac_digits, Exp_digits}"

definition word_token :: "jstring \<Rightarrow> json_token option" where
  "word_token w =
     (if w = js ''true'' then Some TTrue
      else if w = js ''false'' then Some TFalse
      else if w = js ''null'' then Some TNull
      else None)"

text \<open>A code unit read between two tokens: the tokens it completes and the state it leaves.\<close>

definition lex_start :: "16 word \<Rightarrow> (json_token list \<times> lex_state) option" where
  "lex_start c =
     (if c = 0x20 \<or> c = 0x09 \<or> c = 0x0A \<or> c = 0x0D then Some ([], Between)
      else if c = 0x7B then Some ([LBrace], Between)
      else if c = 0x7D then Some ([RBrace], Between)
      else if c = 0x5B then Some ([LBrack], Between)
      else if c = 0x5D then Some ([RBrack], Between)
      else if c = 0x3A then Some ([Colon], Between)
      else if c = 0x2C then Some ([Comma], Between)
      else if c = 0x22 then Some ([], In_string [])
      else if c = 0x2D then Some ([], In_number After_minus [c])
      else if c = 0x30 then Some ([], In_number Zero [c])
      else if is_digit c then Some ([], In_number Int_digits [c])
      else if is_lower c then Some ([], In_word [c])
      else None)"

text \<open>
  A string, a name and a number are collected in reverse. The code unit that ends a name or a
  number is then read as one between tokens.
\<close>

definition lex_char :: "lex_state \<Rightarrow> 16 word \<Rightarrow> (json_token list \<times> lex_state) option" where
  "lex_char st c =
     (case st of
        Between \<Rightarrow> lex_start c
      | In_string acc \<Rightarrow>
          if c = 0x22 then Some ([TString (rev acc)], Between)
          else if c = 0x5C then Some ([], In_escape acc)
          else if c < 0x20 then None
          else Some ([], In_string (c # acc))
      | In_escape acc \<Rightarrow>
          if c = 0x75 then Some ([], In_hex acc 0 0)
          else map_option (\<lambda>e. ([], In_string (e # acc))) (escape_value c)
      | In_hex acc k v \<Rightarrow>
          (case hex_value c of
             None \<Rightarrow> None
           | Some d \<Rightarrow>
               if k = 3 then Some ([], In_string (of_nat (v * 16 + d) # acc))
               else Some ([], In_hex acc (Suc k) (v * 16 + d)))
      | In_word w \<Rightarrow>
          if is_lower c then Some ([], In_word (c # w))
          else (case (word_token (rev w), lex_start c) of
                  (Some t, Some (ts, st')) \<Rightarrow> Some (t # ts, st')
                | _ \<Rightarrow> None)
      | In_number p lit \<Rightarrow>
          (case number_next p c of
             Some p' \<Rightarrow> Some ([], In_number p' (c # lit))
           | None \<Rightarrow>
               if number_complete p then
                 (case lex_start c of
                    Some (ts, st') \<Rightarrow> Some (TNumber (rev lit) # ts, st')
                  | None \<Rightarrow> None)
               else None))"

definition lex_end :: "lex_state \<Rightarrow> json_token list option" where
  "lex_end st =
     (case st of
        Between \<Rightarrow> Some []
      | In_word w \<Rightarrow> map_option (\<lambda>t. [t]) (word_token (rev w))
      | In_number p lit \<Rightarrow> if number_complete p then Some [TNumber (rev lit)] else None
      | _ \<Rightarrow> None)"

fun lex :: "lex_state \<Rightarrow> jstring \<Rightarrow> json_token list option" where
  "lex st [] = lex_end st"
| "lex st (c # cs) =
     (case lex_char st c of
        None \<Rightarrow> None
      | Some (ts, st') \<Rightarrow> map_option (\<lambda>r. ts @ r) (lex st' cs))"

text \<open>
  The open containers, innermost first: the elements of an array in reverse, the properties
  of an object and the key whose value is being read. \<open>expect\<close> is what may come next.
\<close>

datatype frame =
    In_array "jstring jsval list"
  | In_object "(jstring \<times> jstring jsval) list" "jstring option"

datatype expect = Value | Value_or_close | Key_or_close | Key | Colon_next | Next
  | Done "jstring jsval"

fun set_prop :: "jstring \<Rightarrow> 'v \<Rightarrow> (jstring \<times> 'v) list \<Rightarrow> (jstring \<times> 'v) list" where
  "set_prop k v [] = [(k, v)]"
| "set_prop k v ((k', v') # kvs) =
     (if k' = k then (k, v) # kvs else (k', v') # set_prop k v kvs)"

text \<open>A value is complete: it is the whole text, an element, or the value of a key.\<close>

fun complete :: "jstring jsval \<Rightarrow> frame list \<Rightarrow> (expect \<times> frame list) option" where
  "complete v [] = Some (Done v, [])"
| "complete v (In_array es # fs) = Some (Next, In_array (v # es) # fs)"
| "complete v (In_object kvs (Some k) # fs) = Some (Next, In_object (set_prop k v kvs) None # fs)"
| "complete v (In_object kvs None # fs) = None"

definition value_expected :: "expect \<Rightarrow> bool" where
  "value_expected e \<longleftrightarrow> e = Value \<or> e = Value_or_close"

fun parse_token :: "expect \<Rightarrow> frame list \<Rightarrow> json_token \<Rightarrow> (expect \<times> frame list) option" where
  "parse_token e fs LBrack =
     (if value_expected e then Some (Value_or_close, In_array [] # fs) else None)"
| "parse_token e fs LBrace =
     (if value_expected e then Some (Key_or_close, In_object [] None # fs) else None)"
| "parse_token e fs (TNumber l) = (if value_expected e then complete (Num l) fs else None)"
| "parse_token e fs TTrue = (if value_expected e then complete (Bool True) fs else None)"
| "parse_token e fs TFalse = (if value_expected e then complete (Bool False) fs else None)"
| "parse_token e fs TNull = (if value_expected e then complete Null fs else None)"
| "parse_token e fs (TString s) =
     (if value_expected e then complete (Str s) fs
      else (case fs of
              In_object kvs None # fs' \<Rightarrow>
                if e = Key_or_close \<or> e = Key then Some (Colon_next, In_object kvs (Some s) # fs')
                else None
            | _ \<Rightarrow> None))"
| "parse_token e (In_array es # fs) RBrack =
     (if e = Value_or_close \<or> e = Next then complete (Arr (rev es)) fs else None)"
| "parse_token e (In_object kvs None # fs) RBrace =
     (if e = Key_or_close \<or> e = Next then complete (Obj kvs) fs else None)"
| "parse_token e (In_array es # fs) Comma =
     (if e = Next then Some (Value, In_array es # fs) else None)"
| "parse_token e (In_object kvs None # fs) Comma =
     (if e = Next then Some (Key, In_object kvs None # fs) else None)"
| "parse_token e (In_object kvs (Some k) # fs) Colon =
     (if e = Colon_next then Some (Value, In_object kvs (Some k) # fs) else None)"
| "parse_token e fs t = None"

fun parse_tokens :: "expect \<Rightarrow> frame list \<Rightarrow> json_token list \<Rightarrow> jstring jsval option" where
  "parse_tokens e fs [] = (case e of Done v \<Rightarrow> Some v | _ \<Rightarrow> None)"
| "parse_tokens e fs (t # ts) =
     (case parse_token e fs t of None \<Rightarrow> None | Some (e', fs') \<Rightarrow> parse_tokens e' fs' ts)"

definition parse_json :: "jstring \<Rightarrow> jstring jsval option" where
  "parse_json s = (case lex Between s of None \<Rightarrow> None | Some ts \<Rightarrow> parse_tokens Value [] ts)"

text \<open>
  A number prints as its literal, which is what the runtime prints for a decimal integer
  below \<open>2^53\<close> written without fraction and exponent, \<^verbatim>\<open>-0\<close> apart. React
  renders at every suspension.
\<close>

definition json_env :: "jstring js_env" where
  "json_env = \<lparr>json_parse = parse_json, number_to_string = (\<lambda>lit. lit),
                renders_at = (\<lambda>k. True)\<rparr>"

subsection \<open>Example data\<close>

text \<open>
  The bytes of an ASCII text, the state of the component after it is mounted and \<open>q\<close> is
  typed into the input, and that state once a submission is accepted and the stream is open:
  the address of the in-progress object and the state.
\<close>

definition ascii :: "string \<Rightarrow> byte list" where
  "ascii s = map (\<lambda>c. of_nat (of_char c)) s"

definition mounted :: "jstring \<Rightarrow> jstring chat" where
  "mounted q =
     \<lparr>heap = (\<lambda>_. \<lparr>role = [], content = [], sources = Undefined\<rparr>), next_addr = 0,
      messages = [], pending = [], input = q, loading = False, collection = js ''default'',
      conversationId = js ''k3x9q0a7z''\<rparr>"

text \<open>
  The state of the examples: the query \<^verbatim>\<open>hi\<close> has been accepted, React has rendered
  while the request was awaited, and the placeholder of the answer has been appended.
\<close>

definition streaming :: "addr \<times> jstring chat" where
  "streaming = begin_stream (suspend json_env 0 (accept_submit (mounted (js ''hi''))))"

text \<open>
  The UTF-8 encoding of a code point, as the sender of the stream produces it, and the code
  points that have one: the scalar values.
\<close>

definition utf8_encode :: "nat \<Rightarrow> byte list" where
  "utf8_encode cp =
     (if cp < 0x80 then [of_nat cp]
      else if cp < 0x800 then [of_nat (0xC0 + cp div 0x40), of_nat (0x80 + cp mod 0x40)]
      else if cp < 0x10000 then
        [of_nat (0xE0 + cp div 0x1000), of_nat (0x80 + cp div 0x40 mod 0x40),
         of_nat (0x80 + cp mod 0x40)]
      else
        [of_nat (0xF0 + cp div 0x40000), of_nat (0x80 + cp div 0x1000 mod 0x40),
         of_nat (0x80 + cp div 0x40 mod 0x40), of_nat (0x80 + cp mod 0x40)])"

definition scalar_value :: "nat \<Rightarrow> bool" where
  "scalar_value cp \<longleftrightarrow> cp < 0xD800 \<or> (0xDFFF < cp \<and> cp < 0x110000)"

section \<open>Properties\<close>

subsection \<open>The store\<close>

lemma heap_setMessages [simp]: "heap (setMessages f st) = heap st"
  by (simp add: setMessages_def)

lemma messages_setMessages [simp]: "messages (setMessages f st) = messages st"
  by (simp add: setMessages_def)

lemma pending_setMessages [simp]: "pending (setMessages f st) = pending st @ [f]"
  by (simp add: setMessages_def)

lemma heap_publish: "heap (publish am st) = heap st"
  by (simp add: publish_def)

lemma messages_publish: "messages (publish am st) = messages st"
  by (simp add: publish_def)

lemma pending_publish: "pending (publish am st) = pending st @ [Replace_last am]"
  by (simp add: publish_def)

lemma heap_render [simp]: "heap (render st) = heap st"
  by (simp add: render_def)

lemma pending_render [simp]: "pending (render st) = []"
  by (simp add: render_def)

lemma render_no_pending: "pending st = [] \<Longrightarrow> render st = st"
  by (simp add: render_def)

lemma last_replace_last: "xs \<noteq> [] \<Longrightarrow> last (replace_last xs x) = x"
  by (simp add: replace_last_def last_list_update)

lemma replace_last_Nil_iff: "replace_last xs x = [] \<longleftrightarrow> xs = []"
  by (simp add: replace_last_def)

lemma replace_last_snoc: "replace_last (xs @ [y]) x = xs @ [x]"
  by (simp add: replace_last_def list_update_append)

lemma run_updater_Nil_iff: "run_updater h f prev = [] \<longleftrightarrow> prev = [] \<and> (\<exists>am. f = Replace_last am)"
  by (cases f) (simp_all add: replace_last_Nil_iff)

lemma fold_run_updater_not_Nil:
  "prev \<noteq> [] \<Longrightarrow> fold (run_updater h) fs prev \<noteq> []"
  by (induction fs arbitrary: prev) (simp_all add: run_updater_Nil_iff)

lemma last_snapshot_publish:
  "messages st \<noteq> [] \<Longrightarrow> last (snapshot (publish am st)) = heap st am"
  by (simp add: snapshot_def render_def last_map replace_last_Nil_iff fold_run_updater_not_Nil
      last_replace_last pending_publish messages_publish heap_publish)

text \<open>The example state: the user message at address 0, in the array since the render; the
  placeholder at address 1, its updater queued.\<close>

lemma streaming_eq:
  "streaming = (1, \<lparr>heap = (\<lambda>_. \<lparr>role = [], content = [], sources = Undefined\<rparr>)
       (0 := \<lparr>role = js ''user'', content = js ''hi'', sources = Undefined\<rparr>,
        1 := \<lparr>role = js ''assistant'', content = [], sources = Arr []\<rparr>),
     next_addr = 2, messages = [Ref 0], pending = [Append (Ref 1)], input = [],
     loading = True, collection = js ''default'', conversationId = js ''k3x9q0a7z''\<rparr>)"
  by (simp add: streaming_def begin_stream_def accept_submit_def alloc_def append_message_def
      setMessages_def mounted_def suspend_def render_def json_env_def)

subsection \<open>Lines and events\<close>

lemma handle_line_skip: "parse_event env line = None \<Longrightarrow> handle_line env am line st = st"
  by (simp add: handle_line_def)

lemma handle_line_token:
  "parse_event env line = Some ev \<Longrightarrow> handle_line env am line st = apply_event env am ev st"
  by (simp add: handle_line_def)

lemma empty_line_skipped: "handle_line env am [] st = st"
  by (simp add: handle_line_def parse_event_def starts_with_def js_def)

lemma malformed_parse_event: "malformed env line \<Longrightarrow> parse_event env line = None"
  by (auto simp: malformed_def parse_event_def payload_event_def split: option.splits)

lemma starts_with_prefix: "starts_with (p @ s) p"
  by (simp add: starts_with_def)

lemma length_js: "length (js s) = length s"
  by (simp add: js_def)

text \<open>The lines of the examples, parsed by \<open>parse_json\<close>.\<close>

lemma ex_token_A:
  \<open>parse_event json_env (js ''data: {"type":"token","content":"A"}'') = Some (Token (Str (js ''A'')))\<close>
  by code_simp

lemma ex_token_B:
  \<open>parse_event json_env (js ''data: {"type":"token","content":"B"}'') = Some (Token (Str (js ''B'')))\<close>
  by code_simp

lemma ex_sources:
  \<open>parse_event json_env (js ''data: {"type":"sources","sources":[{"source":"a.pdf"}]}'')
     = Some (Sources (Arr [Obj [(js ''source'', Str (js ''a.pdf''))]]))\<close>
  by code_simp

lemma ex_garbage: \<open>malformed json_env (js ''data: not-json'')\<close>
  by code_simp

lemma ex_ping: \<open>malformed json_env (js ''data: {"type":"ping"}'')\<close>
  by code_simp

lemma ex_shifted:
  \<open>parse_event json_env (js '' data: {"type":"token","content":"A"}'') = None\<close>
  by code_simp

lemma ex_head: \<open>parse_event json_env (js ''data: {"type":"token","con'') = None\<close>
  by code_simp

lemma ex_tail: \<open>parse_event json_env (js ''tent":"A"}'') = None\<close>
  by code_simp

subsection \<open>Token events\<close>

lemma apply_token_string:
  "apply_event env am (Token (Str c)) st =
     publish am (st\<lparr>heap := (heap st)(am := (heap st am)\<lparr>content := content (heap st am) @ c\<rparr>)\<rparr>)"
  by simp

lemma apply_error_string:
  "apply_event env am (Error (Str c)) st =
     publish am (st\<lparr>heap := (heap st)(am := (heap st am)\<lparr>content := js ''Error: '' @ c\<rparr>)\<rparr>)"
  by simp

lemma content_after_token:
  "content (heap (apply_event env am (Token (Str c)) st) am) = content (heap st am) @ c"
  by (simp add: heap_publish)

lemma messages_after_token:
  "messages (apply_event env am (Token (Str c)) st) = messages st"
  by (simp add: messages_publish)

lemma last_snapshot_after_token:
  "messages st \<noteq> [] \<Longrightarrow>
     last (snapshot (apply_event env am (Token (Str c)) st))
       = heap (apply_event env am (Token (Str c)) st) am"
  unfolding apply_token_string by (simp add: last_snapshot_publish heap_publish)

lemma content_fold_tokens:
  "content (heap (fold (\<lambda>c. apply_event env am (Token (Str c))) cs st) am)
     = content (heap st am) @ concat cs"
proof (induction cs arbitrary: st)
  case Nil
  show ?case by simp
next
  case (Cons c cs)
  have "content (heap (fold (\<lambda>c. apply_event env am (Token (Str c))) cs
           (apply_event env am (Token (Str c)) st)) am)
        = content (heap (apply_event env am (Token (Str c)) st) am) @ concat cs"
    by (rule Cons.IH)
  then show ?case by (simp only: fold_Cons comp_apply content_after_token concat.simps append_assoc)
qed

lemma messages_fold_tokens:
  "messages (fold (\<lambda>c. apply_event env am (Token (Str c))) cs st) = messages st"
  by (induction cs arbitrary: st) (simp_all add: messages_after_token del: apply_event.simps)

lemma last_snapshot_fold_tokens:
  assumes "messages st \<noteq> []" and "cs \<noteq> []"
  shows "last (snapshot (fold (\<lambda>c. apply_event env am (Token (Str c))) cs st))
           = heap (fold (\<lambda>c. apply_event env am (Token (Str c))) cs st) am"
proof -
  from assms(2) obtain ds d where cs: "cs = ds @ [d]"
    by (cases cs rule: rev_cases) auto
  let ?mid = "fold (\<lambda>c. apply_event env am (Token (Str c))) ds st"
  have "messages ?mid \<noteq> []"
    using assms(1) by (simp add: messages_fold_tokens)
  then show ?thesis
    unfolding cs by (simp add: last_snapshot_after_token del: apply_event.simps)
qed

text \<open>
  C1. Token events with contents \<open>c1, \<dots>, cn\<close>, applied in arrival order to an assistant
  message whose content is empty, leave it with the content \<open>c1 @ \<dots> @ cn\<close>; when there is at
  least one event, that is also the content of the last message a reader of the array sees.
\<close>

theorem token_contents_concatenate:
  assumes "content (heap st am) = []"
  shows "content (heap (fold (\<lambda>c. apply_event env am (Token (Str c))) cs st) am) = concat cs
       \<and> (cs \<noteq> [] \<and> messages st \<noteq> [] \<longrightarrow>
            content (last (snapshot (fold (\<lambda>c. apply_event env am (Token (Str c))) cs st)))
              = concat cs)"
  using assms by (simp add: content_fold_tokens last_snapshot_fold_tokens del: apply_event.simps)

theorem token_contents_concatenate_witness:
  "content (heap (snd streaming) 1) = []
   \<and> content (heap (fold (\<lambda>c. apply_event json_env 1 (Token (Str c))) [js ''Hel'', js ''lo'']
        (snd streaming)) 1) = js ''Hello''
   \<and> content (last (snapshot (fold (\<lambda>c. apply_event json_env 1 (Token (Str c)))
        [js ''Hel'', js ''lo''] (snd streaming)))) = js ''Hello''"
  using token_contents_concatenate [of "snd streaming" 1 json_env "[js ''Hel'', js ''lo'']"]
  by (simp add: streaming_eq js_def del: apply_event.simps)

text \<open>The two lines of the specification's example.\<close>

lemma ex_token_Hel:
  \<open>parse_event json_env (js ''data: {"type":"token","content":"Hel"}'')
     = Some (Token (Str (js ''Hel'')))\<close>
  by code_simp

lemma ex_token_lo:
  \<open>parse_event json_env (js ''data: {"type":"token","content":"lo"}'')
     = Some (Token (Str (js ''lo'')))\<close>
  by code_simp

lemma two_token_lines_give_Hello:
  \<open>content (heap (fold (handle_line json_env 1)
      [js ''data: {"type":"token","content":"Hel"}'', js ''data: {"type":"token","content":"lo"}'']
      (snd streaming)) 1) = js ''Hello''\<close>
  by (simp add: handle_line_token [OF ex_token_Hel] handle_line_token [OF ex_token_lo]
      content_after_token streaming_eq del: apply_event.simps) (simp add: js_def)

subsection \<open>Sources and error events\<close>

text \<open>
  C5. A Sources event sets the sources of the in-progress message to the event's items,
  whatever they were before, and leaves its content as it is: of two Sources events the
  second one's items remain.
\<close>

theorem sources_event_replaces:
  "sources (heap (apply_event env am (Sources items) st) am) = items
   \<and> content (heap (apply_event env am (Sources items) st) am) = content (heap st am)
   \<and> sources (heap (apply_event env am (Sources c) (apply_event env am (Sources ab) st)) am) = c"
  by simp

theorem sources_event_replaces_witness:
  "sources (heap (apply_event json_env 1 (Sources (Arr [Str (js ''c'')]))
     (apply_event json_env 1 (Sources (Arr [Str (js ''a''), Str (js ''b'')])) (snd streaming))) 1)
   = Arr [Str (js ''c'')]"
  using sources_event_replaces [of json_env 1 "Arr [Str (js ''c'')]"
      "apply_event json_env 1 (Sources (Arr [Str (js ''a''), Str (js ''b'')])) (snd streaming)"]
  by simp

text \<open>
  C8. An Error event with the text \<open>text\<close> replaces the content of the in-progress message:
  the content is \<^verbatim>\<open>Error: \<close> followed by \<open>text\<close>, whatever it was before.
\<close>

theorem error_event_replaces_content:
  "content (heap (apply_event env am (Error (Str text)) st) am) = js ''Error: '' @ text"
  by (simp add: heap_publish)

theorem error_event_replaces_content_witness:
  "content (heap (apply_event json_env 1 (Error (Str (js ''boom'')))
     (apply_event json_env 1 (Token (Str (js ''partial''))) (snd streaming))) 1) = js ''Error: boom''"
  using error_event_replaces_content [of json_env 1 "js ''boom''"
      "apply_event json_env 1 (Token (Str (js ''partial''))) (snd streaming)"]
  by (simp add: js_def del: apply_event.simps)

subsection \<open>Malformed lines\<close>

text \<open>
  C6. A malformed line changes nothing, in any state; so of a token line with content \<open>a\<close>,
  a malformed line and a token line with content \<open>b\<close>, handled in this order on an empty
  message, the content \<open>a @ b\<close> remains.
\<close>

theorem malformed_line_is_skipped:
  assumes "parse_event env l1 = Some (Token (Str a))"
      and "parse_event env l2 = Some (Token (Str b))"
      and "malformed env g"
      and "content (heap st am) = []"
  shows "handle_line env am g st' = st'
       \<and> content (heap (fold (handle_line env am) [l1, g, l2] st) am) = a @ b"
proof -
  have skip: "\<And>s. handle_line env am g s = s"
    using assms(3) by (simp add: malformed_parse_event handle_line_skip)
  have "content (heap (fold (handle_line env am) [l1, g, l2] st) am)
        = content (heap (apply_event env am (Token (Str b)) (apply_event env am (Token (Str a)) st)) am)"
    by (simp add: skip handle_line_token [OF assms(1)] handle_line_token [OF assms(2)]
        del: apply_event.simps)
  also have "\<dots> = a @ b"
    by (simp only: content_after_token assms(4) append_Nil)
  finally show ?thesis by (simp add: skip)
qed

theorem malformed_line_is_skipped_witness:
  \<open>content (heap (fold (handle_line json_env 1)
      [js ''data: {"type":"token","content":"A"}'', js ''data: not-json'',
       js ''data: {"type":"token","content":"B"}''] (snd streaming)) 1) = js ''AB''\<close>
proof -
  have "content (heap (snd streaming) 1) = []" by (simp add: streaming_eq)
  from malformed_line_is_skipped [OF ex_token_A ex_token_B ex_garbage this]
  have \<open>content (heap (fold (handle_line json_env 1)
      [js ''data: {"type":"token","content":"A"}'', js ''data: not-json'',
       js ''data: {"type":"token","content":"B"}''] (snd streaming)) 1) = js ''A'' @ js ''B''\<close>
    by (rule conjunct2)
  then show ?thesis by (simp only: js_def list.map append_Cons append_Nil)
qed

subsection \<open>The prefix of a line\<close>

text \<open>
  C9, as stated, fails: a line in which something precedes the prefix yields no event. The
  same record at the start of the line yields its event.
\<close>

theorem prefix_inside_line_is_ignored:
  \<open>parse_event json_env (js '' data: {"type":"token","content":"A"}'') = None
   \<and> parse_event json_env (js ''data: {"type":"token","content":"A"}'')
       = Some (Token (Str (js ''A'')))\<close>
  by (simp add: ex_shifted ex_token_A)

text \<open>
  C9, amended. A line is recognised only if it begins with \<^verbatim>\<open>data: \<close>: then its
  payload is all that follows these six code units. A line that does not begin with the
  prefix yields no event, wherever else the prefix occurs in it.
\<close>

theorem data_prefix_only_at_line_start:
  "parse_event env (js ''data: '' @ p) = payload_event env p
   \<and> (\<not> starts_with line (js ''data: '') \<longrightarrow> parse_event env line = None)"
  by (simp add: parse_event_def starts_with_prefix length_js)

theorem data_prefix_only_at_line_start_witness:
  \<open>parse_event json_env (js ''data: '' @ js ''{"type":"token","content":"A"}'')
     = payload_event json_env (js ''{"type":"token","content":"A"}'')
   \<and> parse_event json_env (js ''event: data: {"type":"token","content":"A"}'') = None\<close>
  using data_prefix_only_at_line_start [of json_env \<open>js ''{"type":"token","content":"A"}''\<close>
      \<open>js ''event: data: {"type":"token","content":"A"}''\<close>]
  by (simp add: starts_with_def js_def)

subsection \<open>The guard and the loading flag\<close>

lemma js_trim_Nil_iff: "js_trim s = [] \<longleftrightarrow> (\<forall>c\<in>set s. js_whitespace c)"
proof
  assume "js_trim s = []"
  then have "\<forall>c\<in>set (dropWhile js_whitespace s). js_whitespace c"
    by (simp add: js_trim_def dropWhile_eq_Nil_conv)
  then have "dropWhile js_whitespace s = []"
    by (metis hd_dropWhile hd_in_set)
  then show "\<forall>c\<in>set s. js_whitespace c"
    by (simp add: dropWhile_eq_Nil_conv)
next
  assume "\<forall>c\<in>set s. js_whitespace c"
  then have d: "dropWhile js_whitespace s = []"
    by (simp add: dropWhile_eq_Nil_conv)
  show "js_trim s = []"
    by (simp add: js_trim_def d)
qed

text \<open>
  C4. When the input is empty or consists of white space only, or when a submission is
  active, \<open>handleSubmit\<close> returns the state it was called in and sends no request: no
  user message is appended and nothing else changes.
\<close>

theorem rejected_submit_is_noop:
  assumes "(\<forall>c\<in>set (input st). js_whitespace c) \<or> loading st"
  shows "handleSubmit env net st = (st, [])"
  using assms by (auto simp: handleSubmit_def js_trim_Nil_iff)

theorem rejected_submit_is_noop_witness:
  "handleSubmit json_env (Body [] None) (mounted (js ''  '')) = (mounted (js ''  ''), [])
   \<and> handleSubmit json_env (Body [] None) (snd streaming) = (snd streaming, [])"
  using rejected_submit_is_noop [of "mounted (js ''  '')" json_env "Body [] None"]
    rejected_submit_is_noop [of "snd streaming" json_env "Body [] None"]
  by (simp add: streaming_eq mounted_def js_def js_whitespace_def)

lemma same_flags_refl: "same_flags st st"
  by (simp add: same_flags_def)

lemma same_flags_trans: "same_flags st'' st' \<Longrightarrow> same_flags st' st \<Longrightarrow> same_flags st'' st"
  by (simp add: same_flags_def)

lemma same_flags_render: "same_flags (render st) st"
  by (simp add: same_flags_def render_def)

lemma same_flags_suspend: "same_flags (suspend env k st) st"
  by (simp add: suspend_def same_flags_render same_flags_refl)

lemma same_flags_setMessages: "same_flags (setMessages f st) st"
  by (simp add: same_flags_def setMessages_def)

lemma same_flags_apply_event: "same_flags (apply_event env am ev st) st"
  by (cases ev) (simp_all add: same_flags_def publish_def setMessages_def split: option.splits)

lemma same_flags_handle_line: "same_flags (handle_line env am l st) st"
  by (simp add: handle_line_def same_flags_apply_event same_flags_refl split: option.splits)

lemma same_flags_fold_lines: "same_flags (fold (handle_line env am) ls st) st"
proof (induction ls arbitrary: st)
  case Nil
  show ?case by (simp add: same_flags_refl)
next
  case (Cons l ls)
  show ?case
    using Cons.IH [of "handle_line env am l st"] same_flags_handle_line [of env am l st]
    by (simp add: same_flags_def)
qed

lemma same_flags_process_chunk: "same_flags (process_chunk env am val st) st"
  by (simp add: process_chunk_def same_flags_fold_lines)

lemma same_flags_read_loop: "same_flags (read_loop env am k chunks st) st"
proof (induction chunks arbitrary: k st)
  case Nil
  show ?case by (simp add: same_flags_suspend)
next
  case (Cons val rest)
  show ?case
    using Cons.IH [of "Suc k" "process_chunk env am val (suspend env k st)"]
      same_flags_process_chunk [of env am val "suspend env k st"] same_flags_suspend [of env k st]
    by (simp add: same_flags_def)
qed

lemma same_flags_append_error: "same_flags (append_error msg st) st"
  by (simp add: append_error_def same_flags_setMessages)

lemma same_flags_begin_stream: "same_flags (snd (begin_stream st)) st"
  by (simp add: begin_stream_def alloc_def append_message_def setMessages_def same_flags_def)

lemma same_flags_run_request: "same_flags (run_request env net st) st"
proof (cases net)
  case (Fetch_rejects msg)
  show ?thesis
    using same_flags_append_error [of msg "suspend env 0 st"] same_flags_suspend [of env 0 st]
    by (simp add: Fetch_rejects run_request_def same_flags_def)
next
  case (Body chunks e)
  obtain am st1 where b: "begin_stream (suspend env 0 st) = (am, st1)"
    by (cases "begin_stream (suspend env 0 st)")
  have 1: "same_flags st1 st"
    using same_flags_begin_stream [of "suspend env 0 st"] same_flags_suspend [of env 0 st] b
    by (simp add: same_flags_def)
  have 2: "same_flags (read_loop env am 1 chunks st1) st"
    using same_flags_read_loop [of env am 1 chunks st1] 1 by (simp add: same_flags_def)
  show ?thesis
  proof (cases e)
    case None
    then show ?thesis using 2 by (simp add: Body run_request_def b)
  next
    case (Some msg)
    then show ?thesis
      using 2 same_flags_append_error [of msg "read_loop env am 1 chunks st1"]
      by (simp add: Body run_request_def b same_flags_def)
  qed
qed

lemma loading_accept_submit: "loading (accept_submit st)"
  by (simp add: accept_submit_def alloc_def append_message_def setMessages_def)

lemma collection_accept_submit:
  "collection (accept_submit st) = collection st"
  "conversationId (accept_submit st) = conversationId st"
  by (simp_all add: accept_submit_def alloc_def append_message_def setMessages_def)

lemma loading_run_request: "loading (run_request env net (accept_submit st))"
  using same_flags_run_request [of env net "accept_submit st"] loading_accept_submit [of st]
  by (simp add: same_flags_def)

lemma accepted_handleSubmit:
  assumes "\<not> loading st" and "js_trim (input st) \<noteq> []"
  shows "handleSubmit env net st =
          (render ((run_request env net (accept_submit st))\<lparr>loading := False\<rparr>),
           [\<lparr>query = input st, req_collection = collection st,
             conversation_id = conversationId st, use_rag = True\<rparr>])"
  using assms by (simp add: handleSubmit_def Let_def)

lemma collection_handleSubmit:
  "collection (fst (handleSubmit env net st)) = collection st"
  "conversationId (fst (handleSubmit env net st)) = conversationId st"
  using same_flags_run_request [of env net "accept_submit st"]
  by (simp_all add: handleSubmit_def Let_def render_def same_flags_def collection_accept_submit)

text \<open>While the chunks of an accepted submission are being read the flag is set.\<close>

lemma loading_while_streaming:
  "loading (read_loop env am k chunks (snd (begin_stream (accept_submit st))))"
  using same_flags_read_loop [of env am k chunks "snd (begin_stream (accept_submit st))"]
    same_flags_begin_stream [of "accept_submit st"] loading_accept_submit [of st]
  by (simp add: same_flags_def)

text \<open>
  C7. From its acceptance to line 79 a submission holds the loading flag set, whatever the
  network does (the request fails, the body ends, with or without error events in it, or a
  read fails), so that a call of the handler in between is rejected. The handler then
  returns with the flag cleared, and a later submission with any non-blank input is
  accepted and sends its request.
\<close>

theorem loading_cleared_on_every_outcome:
  assumes "\<not> loading st" and "js_trim (input st) \<noteq> []"
  shows "loading (run_request env net (accept_submit st))
       \<and> handleSubmit env other (run_request env net (accept_submit st))
           = (run_request env net (accept_submit st), [])
       \<and> fst (handleSubmit env net st)
           = render ((run_request env net (accept_submit st))\<lparr>loading := False\<rparr>)
       \<and> \<not> loading (fst (handleSubmit env net st))
       \<and> (\<forall>q net'. js_trim q \<noteq> [] \<longrightarrow>
             snd (handleSubmit env net' ((fst (handleSubmit env net st))\<lparr>input := q\<rparr>)) =
               [\<lparr>query = q, req_collection = collection st,
                 conversation_id = conversationId st, use_rag = True\<rparr>])"
proof (intro conjI allI impI)
  show flag: "loading (run_request env net (accept_submit st))"
    by (rule loading_run_request)
  show "handleSubmit env other (run_request env net (accept_submit st))
      = (run_request env net (accept_submit st), [])"
    using flag by (simp add: handleSubmit_def)
  show final: "fst (handleSubmit env net st)
      = render ((run_request env net (accept_submit st))\<lparr>loading := False\<rparr>)"
    by (simp add: accepted_handleSubmit [OF assms])
  show l: "\<not> loading (fst (handleSubmit env net st))"
    unfolding final by (simp add: render_def)
  fix q net'
  assume q: "js_trim q \<noteq> []"
  let ?st' = "(fst (handleSubmit env net st))\<lparr>input := q\<rparr>"
  have "\<not> loading ?st'" using l by simp
  moreover have "js_trim (input ?st') \<noteq> []" using q by simp
  ultimately have "snd (handleSubmit env net' ?st') =
     [\<lparr>query = input ?st', req_collection = collection ?st',
       conversation_id = conversationId ?st', use_rag = True\<rparr>]"
    by (simp add: accepted_handleSubmit)
  then show "snd (handleSubmit env net' ?st') =
     [\<lparr>query = q, req_collection = collection st,
       conversation_id = conversationId st, use_rag = True\<rparr>]"
    by (simp add: collection_handleSubmit)
qed

theorem loading_cleared_on_every_outcome_witness:
  \<open>loading (run_request json_env (Fetch_rejects (js ''Failed to fetch''))
        (accept_submit (mounted (js ''hi''))))
   \<and> \<not> loading (fst (handleSubmit json_env (Fetch_rejects (js ''Failed to fetch''))
        (mounted (js ''hi''))))
   \<and> loading (run_request json_env
        (Body [ascii ''data: {"type":"error","error":"boom"}\<newline>''] None)
        (accept_submit (mounted (js ''hi''))))
   \<and> \<not> loading (fst (handleSubmit json_env
        (Body [ascii ''data: {"type":"error","error":"boom"}\<newline>''] None)
        (mounted (js ''hi''))))
   \<and> loading (run_request json_env (Body [ascii ''data: x''] (Some (js ''network error'')))
        (accept_submit (mounted (js ''hi''))))
   \<and> handleSubmit json_env (Body [] None)
        (run_request json_env (Body [ascii ''data: x''] (Some (js ''network error'')))
           (accept_submit (mounted (js ''hi'')))) =
       (run_request json_env (Body [ascii ''data: x''] (Some (js ''network error'')))
           (accept_submit (mounted (js ''hi''))), [])
   \<and> \<not> loading (fst (handleSubmit json_env (Body [ascii ''data: x''] (Some (js ''network error'')))
        (mounted (js ''hi''))))
   \<and> snd (handleSubmit json_env (Body [] None)
        ((fst (handleSubmit json_env (Body [ascii ''data: x''] (Some (js ''network error'')))
           (mounted (js ''hi''))))\<lparr>input := js ''again''\<rparr>)) =
       [\<lparr>query = js ''again'', req_collection = js ''default'',
         conversation_id = js ''k3x9q0a7z'', use_rag = True\<rparr>]\<close>
proof -
  have h1: "\<not> loading (mounted (js ''hi''))" by (simp add: mounted_def)
  have h2: "js_trim (input (mounted (js ''hi''))) \<noteq> []"
    by (simp add: mounted_def js_trim_def js_def js_whitespace_def)
  have h3: "js_trim (js ''again'') \<noteq> []"
    by (simp add: js_trim_def js_def js_whitespace_def)
  have c: "collection (mounted (js ''hi'')) = js ''default''"
    "conversationId (mounted (js ''hi'')) = js ''k3x9q0a7z''"
    by (simp_all add: mounted_def)
  note t = loading_cleared_on_every_outcome [OF h1 h2, unfolded c]
  from t [where env = json_env and net = "Fetch_rejects (js ''Failed to fetch'')"
        and other = "Body [] None"]
    t [where env = json_env
        and net = \<open>Body [ascii ''data: {"type":"error","error":"boom"}\<newline>''] None\<close>
        and other = "Body [] None"]
    t [where env = json_env and net = "Body [ascii ''data: x''] (Some (js ''network error''))"
        and other = "Body [] None"] h3
  show ?thesis by blast
qed

subsection \<open>A Sources event and the array of messages\<close>

text \<open>The trace of the loop: every state the handler reaches while it reads the body is the
  result of lines handled and renders, in some order.\<close>

lemma fold_lines_steps: "fold (do_step env am) (map Line ls) st = fold (handle_line env am) ls st"
  by (induction ls arbitrary: st) simp_all

lemma suspend_steps:
  "suspend env k st = fold (do_step env am) (if renders_at env k then [Render] else []) st"
  by (simp add: suspend_def)

lemma read_loop_steps:
  "read_loop env am k chunks st = fold (do_step env am) (loop_steps env k chunks) st"
proof (induction chunks arbitrary: k st)
  case Nil
  show ?case by (simp add: suspend_def)
next
  case (Cons val rest)
  show ?case
    by (simp add: Cons.IH fold_lines_steps process_chunk_def suspend_def)
qed

lemma map_replace_last: "map f (replace_last xs x) = replace_last (map f xs) (f x)"
  by (simp add: replace_last_def map_update)

lemma butlast_replace_last: "butlast (replace_last xs x) = butlast xs"
  by (cases xs rule: rev_cases) (simp_all add: replace_last_def list_update_append)

lemma set_replace_last: "set (replace_last xs x) \<subseteq> insert x (set (butlast xs))"
  by (cases xs rule: rev_cases) (simp_all add: replace_last_def list_update_append)

lemma erase_run_updater:
  "map erase (run_updater h f prev) =
     (case f of Append x \<Rightarrow> map erase prev @ [erase x]
              | Replace_last a \<Rightarrow> replace_last (map erase prev) None)"
  by (cases f) (simp_all add: map_replace_last)

lemma erase_fold_heap:
  "map erase prev = map erase prev' \<Longrightarrow>
     map erase (fold (run_updater h) fs prev) = map erase (fold (run_updater h') fs prev')"
proof (induction fs arbitrary: prev prev')
  case Nil
  then show ?case by simp
next
  case (Cons f fs)
  have "map erase (run_updater h f prev) = map erase (run_updater h' f prev')"
    using Cons.prems by (simp add: erase_run_updater split: updater.splits)
  then show ?case by (simp add: Cons.IH)
qed

lemma shown_refs_heap [simp]: "shown_refs (st\<lparr>heap := h\<rparr>) = shown_refs st"
  by (simp add: shown_refs_def render_def
      erase_fold_heap [of "messages st" "messages st" h "pending st" "heap st"])

lemma shown_refs_render [simp]: "shown_refs (render st) = shown_refs st"
  by (simp add: shown_refs_def render_def)

lemma shown_refs_setMessages:
  "shown_refs (setMessages f st) =
     (case f of Append x \<Rightarrow> shown_refs st @ [erase x]
              | Replace_last a \<Rightarrow> replace_last (shown_refs st) None)"
  by (simp add: shown_refs_def render_def setMessages_def erase_run_updater
      split: updater.splits)

lemma Ref_in_iff: "Ref a \<in> set xs \<longleftrightarrow> Some a \<in> set (map erase xs)"
proof
  assume "Ref a \<in> set xs"
  then show "Some a \<in> set (map erase xs)"
    using image_eqI [of "Some a" erase "Ref a" "set xs"] by simp
next
  assume "Some a \<in> set (map erase xs)"
  then obtain x where x: "x \<in> set xs" "erase x = Some a" by auto
  have "x = Ref a" using x(2) by (cases x) simp_all
  with x show "Ref a \<in> set xs" by simp
qed

lemma shown_refs_apply_event:
  "shown_refs (apply_event env am ev st) =
     (if publishes env ev then replace_last (shown_refs st) None else shown_refs st)"
  by (cases ev) (auto simp: publish_def shown_refs_setMessages split: option.splits)

lemma shown_refs_handle_line:
  "shown_refs (handle_line env am l st) =
     (if publishing env l then replace_last (shown_refs st) None else shown_refs st)"
  by (simp add: handle_line_def publishing_def shown_refs_apply_event split: option.splits)

lemma unpublished_line:
  assumes "\<not> publishing env l"
  shows "pending (handle_line env am l st) = pending st"
    and "messages (handle_line env am l st) = messages st"
proof -
  have "pending (handle_line env am l st) = pending st \<and> messages (handle_line env am l st) = messages st"
  proof (cases "parse_event env l")
    case None
    then show ?thesis by (simp add: handle_line_def)
  next
    case (Some ev)
    with assms have "\<not> publishes env ev" by (simp add: publishing_def)
    then show ?thesis
      by (cases ev) (simp_all add: handle_line_def Some)
  qed
  then show "pending (handle_line env am l st) = pending st"
    and "messages (handle_line env am l st) = messages st" by simp_all
qed

text \<open>At most in the last place; nowhere.\<close>

lemma last_place_step:
  "Some am \<notin> set (butlast (shown_refs st)) \<Longrightarrow>
     Some am \<notin> set (butlast (shown_refs (do_step env am s st)))"
  by (cases s) (simp_all add: shown_refs_handle_line butlast_replace_last)

lemma nowhere_step:
  "Some am \<notin> set (shown_refs st) \<Longrightarrow> Some am \<notin> set (shown_refs (do_step env am s st))"
  using set_replace_last [of "shown_refs st" None]
  by (cases s) (auto simp: shown_refs_handle_line dest: in_set_butlastD)

lemma nowhere_steps:
  "Some am \<notin> set (shown_refs st) \<Longrightarrow>
     Some am \<notin> set (shown_refs (fold (do_step env am) steps st))"
  by (induction steps arbitrary: st) (simp_all add: nowhere_step del: do_step.simps)

lemma nowhere_after_publishing:
  assumes "Some am \<notin> set (butlast (shown_refs st))"
      and "\<exists>l. Line l \<in> set steps \<and> publishing env l"
  shows "Some am \<notin> set (shown_refs (fold (do_step env am) steps st))"
  using assms
proof (induction steps arbitrary: st)
  case Nil
  then show ?case by simp
next
  case (Cons s steps)
  show ?case
  proof (cases "\<exists>l. s = Line l \<and> publishing env l")
    case True
    then obtain l where l: "s = Line l" "publishing env l" by blast
    have "Some am \<notin> set (shown_refs (do_step env am s st))"
      using Cons.prems(1) set_replace_last [of "shown_refs st" None] l
      by (auto simp: shown_refs_handle_line)
    then show ?thesis by (simp add: nowhere_steps del: do_step.simps)
  next
    case False
    with Cons.prems(2) have "\<exists>l. Line l \<in> set steps \<and> publishing env l" by auto
    moreover have "Some am \<notin> set (butlast (shown_refs (do_step env am s st)))"
      using Cons.prems(1) by (rule last_place_step)
    ultimately show ?thesis using Cons.IH by (simp del: do_step.simps)
  qed
qed

lemma out_of_array_render:
  "Some am \<notin> set (shown_refs st) \<Longrightarrow> out_of_array am (render st)"
  by (simp add: out_of_array_def shown_refs_def Ref_in_iff)

lemma out_of_array_step:
  assumes "out_of_array am st" and "\<forall>l. s = Line l \<longrightarrow> \<not> publishing env l"
  shows "out_of_array am (do_step env am s st)"
proof (cases s)
  case (Line l)
  with assms(2) have "\<not> publishing env l" by simp
  then show ?thesis using assms(1) by (simp add: Line out_of_array_def unpublished_line)
next
  case Render
  then show ?thesis using assms(1) by (simp add: out_of_array_def render_no_pending)
qed

lemma out_of_array_steps:
  assumes "out_of_array am st" and "\<forall>l. Line l \<in> set steps \<longrightarrow> \<not> publishing env l"
  shows "out_of_array am (fold (do_step env am) steps st)"
  using assms
proof (induction steps arbitrary: st)
  case Nil
  then show ?case by simp
next
  case (Cons s steps)
  have "out_of_array am (do_step env am s st)"
    using Cons.prems by (intro out_of_array_step) auto
  then show ?case using Cons.prems(2) Cons.IH by (simp del: do_step.simps)
qed

lemma Ref_in_fold_run_updater:
  "Ref a \<in> set (fold (run_updater h) fs prev) \<Longrightarrow>
     Ref a \<in> set prev \<or> Append (Ref a) \<in> set fs"
proof (induction fs arbitrary: prev)
  case Nil
  then show ?case by simp
next
  case (Cons f fs)
  from Cons.prems have "Ref a \<in> set (fold (run_updater h) fs (run_updater h f prev))" by simp
  then have "Ref a \<in> set (run_updater h f prev) \<or> Append (Ref a) \<in> set fs"
    by (rule Cons.IH)
  moreover have "Ref a \<in> set prev \<or> f = Append (Ref a)" if "Ref a \<in> set (run_updater h f prev)"
  proof (cases f)
    case (Append x)
    with that show ?thesis by auto
  next
    case (Replace_last b)
    with that set_replace_last [of prev "Copy (h b)"] show ?thesis
      by (auto dest: in_set_butlastD)
  qed
  ultimately show ?case by auto
qed

lemma shown_refs_next_addr: "shown_refs (st\<lparr>next_addr := n\<rparr>) = shown_refs st"
  by (simp add: shown_refs_def render_def)

lemma shown_refs_alloc: "shown_refs (snd (alloc m st)) = shown_refs st"
  by (simp add: alloc_def shown_refs_next_addr)

lemma begin_stream_last_place:
  assumes "allocated st0" and "begin_stream st0 = (am, st1)"
  shows "Some am \<notin> set (butlast (shown_refs st1))"
proof -
  have am: "am = next_addr st0" and st1: "st1 = append_message am (snd (alloc \<lparr>role = js ''assistant'', content = [], sources = Arr []\<rparr> st0))"
    using assms(2) by (auto simp: begin_stream_def alloc_def)
  have "shown_refs (snd (alloc \<lparr>role = js ''assistant'', content = [], sources = Arr []\<rparr> st0))
      = shown_refs st0"
    by (rule shown_refs_alloc)
  then have "shown_refs st1 = shown_refs st0 @ [Some am]"
    unfolding st1 by (simp add: append_message_def shown_refs_setMessages)
  moreover have "Some am \<notin> set (shown_refs st0)"
  proof
    assume "Some am \<in> set (shown_refs st0)"
    then have "Ref am \<in> set (fold (run_updater (heap st0)) (pending st0) (messages st0))"
      by (simp add: shown_refs_def render_def Ref_in_iff)
    then have "Ref am \<in> set (messages st0) \<or> Append (Ref am) \<in> set (pending st0)"
      by (rule Ref_in_fold_run_updater)
    then have "am < next_addr st0"
      using assms(1) by (force simp: allocated_def)
    then show False by (simp add: am)
  qed
  ultimately show ?thesis by simp
qed

lemma look_other:
  "x \<noteq> Ref am \<Longrightarrow> look (h(am := m)) x = look h x"
  by (cases x) simp_all

lemma snapshot_sources_out_of_array:
  assumes "out_of_array am st"
  shows "snapshot (apply_event env am (Sources v) st) = snapshot st"
proof -
  from assms have p: "pending st = []" and r: "Ref am \<notin> set (messages st)"
    by (simp_all add: out_of_array_def)
  have "map (look ((heap st)(am := (heap st am)\<lparr>sources := v\<rparr>))) (messages st)
      = map (look (heap st)) (messages st)"
  proof (rule map_cong [OF refl])
    fix x assume "x \<in> set (messages st)"
    with r have "x \<noteq> Ref am" by auto
    then show "look ((heap st)(am := (heap st am)\<lparr>sources := v\<rparr>)) x = look (heap st) x"
      by (rule look_other)
  qed
  then show ?thesis by (simp add: snapshot_def render_def p)
qed

text \<open>
  A token or error line whose value cannot be converted to a string (an object with a
  property \<^verbatim>\<open>toString\<close> of its own, which is not callable) throws at line 50 or 59: the
  line is skipped and nothing is published.
\<close>

lemma unconvertible_line_is_skipped:
  assumes "parse_event env l = Some (Token v) \<or> parse_event env l = Some (Error v)"
      and "to_string (number_to_string env) v = None"
  shows "handle_line env am l st = st" and "\<not> publishing env l"
  using assms by (auto simp: handle_line_def publishing_def)

lemma ex_unconvertible:
  \<open>parse_event json_env (js ''data: {"type":"token","content":{"toString":1}}'')
     = Some (Token (Obj [(js ''toString'', Num (js ''1''))]))\<close>
  by code_simp

lemma ex_unconvertible_skipped:
  \<open>handle_line json_env am (js ''data: {"type":"token","content":{"toString":1}}'') st = st
   \<and> \<not> publishing json_env (js ''data: {"type":"token","content":{"toString":1}}'')\<close>
  using unconvertible_line_is_skipped(1) [of json_env
      \<open>js ''data: {"type":"token","content":{"toString":1}}''\<close>
      "Obj [(js ''toString'', Num (js ''1''))]" am st]
    unconvertible_line_is_skipped(2) [of json_env
      \<open>js ''data: {"type":"token","content":{"toString":1}}''\<close>
      "Obj [(js ''toString'', Num (js ''1''))]"]
  by (simp add: ex_unconvertible)

lemma ex_token_A_publishing:
  \<open>publishing json_env (js ''data: {"type":"token","content":"A"}'')\<close>
  by (simp add: publishing_def ex_token_A)

text \<open>
  C10, as stated, fails: when the Sources event is the first event of the stream, the last
  element of the array is the in-progress object itself (line 35 appends the object, not a
  copy), and a render shows the new sources although no Token or Error event has arrived.
\<close>

theorem sources_event_visible_through_placeholder:
  \<open>map sources (snapshot (snd streaming)) = [Undefined, Arr []]
   \<and> map sources (snapshot (handle_line json_env 1
         (js ''data: {"type":"sources","sources":[{"source":"a.pdf"}]}'') (snd streaming)))
       = [Undefined, Arr [Obj [(js ''source'', Str (js ''a.pdf''))]]]\<close>
  by (simp add: handle_line_token [OF ex_sources] snapshot_def render_def streaming_eq)

text \<open>
  Nor does a Token event before the Sources event suffice: the copy of line 53 is made when
  the updater runs, at the next render. When the Sources line follows the token line with
  no render in between, as in one chunk, that render copies the object with its new sources.
\<close>

lemma sources_after_unrendered_token_are_shown:
  \<open>map sources (snapshot (handle_line json_env 1
         (js ''data: {"type":"token","content":"A"}'') (snd streaming))) = [Undefined, Arr []]
   \<and> map sources (snapshot (handle_line json_env 1
         (js ''data: {"type":"sources","sources":[{"source":"a.pdf"}]}'')
         (handle_line json_env 1 (js ''data: {"type":"token","content":"A"}'') (snd streaming))))
       = [Undefined, Arr [Obj [(js ''source'', Str (js ''a.pdf''))]]]\<close>
  by (simp add: handle_line_token [OF ex_sources] handle_line_token [OF ex_token_A]
      snapshot_def render_def publish_def replace_last_def streaming_eq)

text \<open>The next Token event publishes the sources with the content.\<close>

lemma sources_shown_by_next_token:
  assumes "messages st \<noteq> []"
  shows "sources (last (snapshot (apply_event env am (Token (Str c))
           (apply_event env am (Sources v) st)))) = v"
proof -
  have "messages (apply_event env am (Sources v) st) \<noteq> []"
    using assms by simp
  then have "last (snapshot (apply_event env am (Token (Str c)) (apply_event env am (Sources v) st)))
      = heap (apply_event env am (Token (Str c)) (apply_event env am (Sources v) st)) am"
    by (rule last_snapshot_after_token)
  then show ?thesis by (simp add: heap_publish)
qed

text \<open>
  C10, amended. A Sources line calls no setter: the array and the queue of updaters are as
  before, and no object other than the in-progress one changes. When a Token or Error line
  has been published on the stream and React has rendered since, with no further line
  published after that render, the array holds a copy in the place of the in-progress
  object, and what a render shows is unchanged by the Sources line. The lines and the
  renders before the Sources line are any: the statement does not depend on when React
  renders.
\<close>

theorem sources_event_frame:
  assumes "allocated st0"
      and "begin_stream st0 = (am, st1)"
      and "st = fold (do_step env am) steps st1"
      and "parse_event env line = Some (Sources v)"
  shows "messages (handle_line env am line st) = messages st
       \<and> pending (handle_line env am line st) = pending st
       \<and> (\<forall>a. a \<noteq> am \<longrightarrow> heap (handle_line env am line st) a = heap st a)
       \<and> ((\<exists>pre post. steps = pre @ Render # post
              \<and> (\<exists>l. Line l \<in> set pre \<and> publishing env l)
              \<and> (\<forall>l. Line l \<in> set post \<longrightarrow> \<not> publishing env l)) \<longrightarrow>
            snapshot (handle_line env am line st) = snapshot st)"
proof -
  have h: "handle_line env am line st = apply_event env am (Sources v) st"
    using assms(4) by (rule handle_line_token)
  have last: "Some am \<notin> set (butlast (shown_refs st1))"
    using assms(1,2) by (rule begin_stream_last_place)
  have "snapshot (handle_line env am line st) = snapshot st"
    if "steps = pre @ Render # post" and "\<exists>l. Line l \<in> set pre \<and> publishing env l"
      and "\<forall>l. Line l \<in> set post \<longrightarrow> \<not> publishing env l" for pre post
  proof -
    have "Some am \<notin> set (shown_refs (fold (do_step env am) pre st1))"
      using last that(2) by (rule nowhere_after_publishing)
    then have "out_of_array am (render (fold (do_step env am) pre st1))"
      by (rule out_of_array_render)
    then have "out_of_array am (fold (do_step env am) post (render (fold (do_step env am) pre st1)))"
      using that(3) by (rule out_of_array_steps)
    then have "out_of_array am st"
      by (simp add: assms(3) that(1))
    then show ?thesis unfolding h by (rule snapshot_sources_out_of_array)
  qed
  note frame = this
  show ?thesis
    unfolding h
  proof (intro conjI allI impI)
    show "messages (apply_event env am (Sources v) st) = messages st" by simp
    show "pending (apply_event env am (Sources v) st) = pending st" by simp
    show "heap (apply_event env am (Sources v) st) a = heap st a" if "a \<noteq> am" for a
      using that by simp
    assume "\<exists>pre post. steps = pre @ Render # post
        \<and> (\<exists>l. Line l \<in> set pre \<and> publishing env l)
        \<and> (\<forall>l. Line l \<in> set post \<longrightarrow> \<not> publishing env l)"
    then obtain pre post where "steps = pre @ Render # post"
      and "\<exists>l. Line l \<in> set pre \<and> publishing env l"
      and "\<forall>l. Line l \<in> set post \<longrightarrow> \<not> publishing env l"
      by blast
    then have "snapshot (handle_line env am line st) = snapshot st" by (rule frame)
    then show "snapshot (apply_event env am (Sources v) st) = snapshot st" by (simp only: h)
  qed
qed

theorem sources_event_frame_witness:
  \<open>snapshot (handle_line json_env 1 (js ''data: {"type":"sources","sources":[{"source":"a.pdf"}]}'')
      (fold (do_step json_env 1) [Line (js ''data: {"type":"token","content":"A"}''), Render]
         (snd streaming)))
   = snapshot (fold (do_step json_env 1) [Line (js ''data: {"type":"token","content":"A"}''), Render]
      (snd streaming))
   \<and> map sources (snapshot (fold (do_step json_env 1)
         [Line (js ''data: {"type":"token","content":"A"}''), Render] (snd streaming)))
       = [Undefined, Arr []]
   \<and> sources (heap (handle_line json_env 1
         (js ''data: {"type":"sources","sources":[{"source":"a.pdf"}]}'')
         (fold (do_step json_env 1) [Line (js ''data: {"type":"token","content":"A"}''), Render]
            (snd streaming))) 1)
       = Arr [Obj [(js ''source'', Str (js ''a.pdf''))]]\<close>
proof -
  let ?st0 = "suspend json_env 0 (accept_submit (mounted (js ''hi'')))"
  let ?steps = \<open>[Line (js ''data: {"type":"token","content":"A"}''), Render]\<close>
  have wf: "allocated ?st0"
    by (simp add: allocated_def suspend_def render_def json_env_def accept_submit_def alloc_def
        append_message_def setMessages_def mounted_def)
  have b: "begin_stream ?st0 = (1, snd streaming)"
    by (simp add: streaming_def [symmetric]) (simp add: streaming_eq)
  have \<open>?steps = [Line (js ''data: {"type":"token","content":"A"}'')] @ Render # []
      \<and> (\<exists>l. Line l \<in> set [Line (js ''data: {"type":"token","content":"A"}'')]
             \<and> publishing json_env l)
      \<and> (\<forall>l. Line l \<in> set [] \<longrightarrow> \<not> publishing json_env l)\<close>
    by (simp add: ex_token_A_publishing)
  then have p: "\<exists>pre post. ?steps = pre @ Render # post
      \<and> (\<exists>l. Line l \<in> set pre \<and> publishing json_env l)
      \<and> (\<forall>l. Line l \<in> set post \<longrightarrow> \<not> publishing json_env l)"
    by blast
  have 1: \<open>snapshot (handle_line json_env 1
        (js ''data: {"type":"sources","sources":[{"source":"a.pdf"}]}'')
        (fold (do_step json_env 1) ?steps (snd streaming)))
      = snapshot (fold (do_step json_env 1) ?steps (snd streaming))\<close>
    using sources_event_frame [where steps = ?steps, OF wf b refl ex_sources] p by blast
  have 2: "map sources (snapshot (fold (do_step json_env 1) ?steps (snd streaming)))
      = [Undefined, Arr []]"
    by (simp add: handle_line_token [OF ex_token_A] snapshot_def render_def publish_def
        replace_last_def streaming_eq)
  have 3: \<open>sources (heap (handle_line json_env 1
        (js ''data: {"type":"sources","sources":[{"source":"a.pdf"}]}'')
        (fold (do_step json_env 1) ?steps (snd streaming))) 1)
      = Arr [Obj [(js ''source'', Str (js ''a.pdf''))]]\<close>
    by (simp add: handle_line_token [OF ex_sources])
  from 1 2 3 show ?thesis by (intro conjI)
qed

subsection \<open>The lines of a chunk\<close>

lemma split_nl_not_Nil: "split_nl s \<noteq> []"
  by (induction s) (auto split: list.splits)

lemma split_nl_no_newline: "0x0A \<notin> set p \<Longrightarrow> split_nl p = [p]"
  by (induction p) auto

lemma split_nl_append_no_newline:
  "0x0A \<notin> set p \<Longrightarrow> split_nl (p @ 0x0A # b) = p # split_nl b"
  by (induction p) auto

lemma split_nl_at_newline: "split_nl (a @ 0x0A # b) = split_nl a @ split_nl b"
proof (induction a)
  case Nil
  show ?case by simp
next
  case (Cons c a)
  obtain l ls where "split_nl a = l # ls"
    using split_nl_not_Nil [of a] by (cases "split_nl a") auto
  then show ?case using Cons.IH by simp
qed

subsection \<open>The decoder\<close>

lemma unat_byte_of_nat: "n < 256 \<Longrightarrow> unat (of_nat n :: byte) = n"
  by (simp add: unat_of_nat)

lemma byte_le_of_nat: "n < 256 \<Longrightarrow> m < 256 \<Longrightarrow> (of_nat n :: byte) \<le> of_nat m \<longleftrightarrow> n \<le> m"
  by (simp add: word_le_nat_alt unat_of_nat)

lemma byte_eq_of_nat: "n < 256 \<Longrightarrow> m < 256 \<Longrightarrow> (of_nat n :: byte) = of_nat m \<longleftrightarrow> n = m"
  by (metis unat_byte_of_nat)

lemma unat_and_mask_byte:
  "unat ((b :: byte) AND 0x3F) = unat b mod 64"
  "unat ((b :: byte) AND 0x1F) = unat b mod 32"
  "unat ((b :: byte) AND 0xF) = unat b mod 16"
  "unat ((b :: byte) AND 0x7) = unat b mod 8"
proof -
  have m: "(0x3F :: byte) = mask 6" "(0x1F :: byte) = mask 5" "(0xF :: byte) = mask 4" "(0x7 :: byte) = mask 3"
    by (simp_all add: mask_eq_exp_minus_1)
  show "unat ((b :: byte) AND 0x3F) = unat b mod 64"
    "unat ((b :: byte) AND 0x1F) = unat b mod 32"
    "unat ((b :: byte) AND 0xF) = unat b mod 16"
    "unat ((b :: byte) AND 0x7) = unat b mod 8"
    unfolding m by (simp_all add: take_bit_eq_mod unat_mod flip: take_bit_eq_mask)
qed

lemma utf8_lead_nat:
  assumes "n < 256"
  shows "utf8_lead (of_nat n) =
     (if n \<le> 0x7F then ([n], utf8_init)
      else if 0xC2 \<le> n \<and> n \<le> 0xDF then
        ([], utf8_init\<lparr>bytes_needed := 1, code_point := n mod 32\<rparr>)
      else if 0xE0 \<le> n \<and> n \<le> 0xEF then
        ([], utf8_init\<lparr>lower_boundary := (if n = 0xE0 then 0xA0 else 0x80),
                       upper_boundary := (if n = 0xED then 0x9F else 0xBF),
                       bytes_needed := 2, code_point := n mod 16\<rparr>)
      else if 0xF0 \<le> n \<and> n \<le> 0xF4 then
        ([], utf8_init\<lparr>lower_boundary := (if n = 0xF0 then 0x90 else 0x80),
                       upper_boundary := (if n = 0xF4 then 0x8F else 0xBF),
                       bytes_needed := 3, code_point := n mod 8\<rparr>)
      else ([0xFFFD], utf8_init))"
proof -
  have le: "\<And>m. m < 256 \<Longrightarrow> (of_nat n :: byte) \<le> of_nat m \<longleftrightarrow> n \<le> m"
    and ge: "\<And>m. m < 256 \<Longrightarrow> (of_nat m :: byte) \<le> of_nat n \<longleftrightarrow> m \<le> n"
    and eq: "\<And>m. m < 256 \<Longrightarrow> (of_nat n :: byte) = of_nat m \<longleftrightarrow> n = m"
    using assms by (simp_all add: byte_le_of_nat byte_eq_of_nat)
  have u: "unat (of_nat n :: byte) = n" using assms by (rule unat_byte_of_nat)
  show ?thesis
    unfolding utf8_lead_def unat_and_mask_byte u
    using le [of "0x7F"] ge [of "0xC2"] le [of "0xDF"] ge [of "0xE0"] le [of "0xEF"]
      ge [of "0xF0"] le [of "0xF4"] eq [of "0xE0"] eq [of "0xED"] eq [of "0xF0"] eq [of "0xF4"]
    by simp
qed

lemma utf8_cont_nat:
  assumes "n < 256" and "bytes_needed s \<noteq> 0"
      and "unat (lower_boundary s) \<le> n" and "n \<le> unat (upper_boundary s)"
  shows "utf8_byte s (of_nat n) =
     (if bytes_seen s + 1 \<noteq> bytes_needed s then
        ([], s\<lparr>lower_boundary := 0x80, upper_boundary := 0xBF,
                code_point := code_point s * 64 + n mod 64, bytes_seen := bytes_seen s + 1\<rparr>)
      else ([code_point s * 64 + n mod 64], utf8_init))"
proof -
  have u: "unat (of_nat n :: byte) = n" using assms(1) by (rule unat_byte_of_nat)
  have "\<not> (of_nat n :: byte) < lower_boundary s" "\<not> upper_boundary s < (of_nat n :: byte)"
    using assms(3,4) by (simp_all add: word_less_nat_alt u)
  then show ?thesis
    using assms(2) by (simp add: utf8_byte_def unat_and_mask_byte u Let_def)
qed

lemma utf8_run_init_Cons: "utf8_byte utf8_init b = utf8_lead b"
  by (simp add: utf8_byte_def utf8_init_def)

lemma continuation_in_init:
  assumes "0x80 \<le> n" and "n \<le> 0xBF"
  shows "utf8_run utf8_init (of_nat n # bs) = 0xFFFD # utf8_run utf8_init bs"
proof -
  have "utf8_lead (of_nat n) = ([0xFFFD], utf8_init)"
    using assms by (simp add: utf8_lead_nat)
  then show ?thesis by (simp add: utf8_run_init_Cons)
qed

lemma two_bytes_whole:
  assumes "0xC2 \<le> n0" and "n0 \<le> 0xDF" and "0x80 \<le> n1" and "n1 \<le> 0xBF"
  shows "utf8_run utf8_init (of_nat n0 # of_nat n1 # bs)
           = (n0 mod 32 * 64 + n1 mod 64) # utf8_run utf8_init bs"
proof -
  let ?s1 = "utf8_init\<lparr>bytes_needed := 1, code_point := n0 mod 32\<rparr>"
  have l: "utf8_lead (of_nat n0) = ([], ?s1)"
    using assms(1,2) by (simp add: utf8_lead_nat)
  have c: "utf8_byte ?s1 (of_nat n1) = ([n0 mod 32 * 64 + n1 mod 64], utf8_init)"
    using assms(3,4) by (subst utf8_cont_nat) (simp_all add: utf8_init_def)
  show ?thesis
    using l c by (simp add: utf8_run_init_Cons)
qed

lemma two_bytes_prefix:
  assumes "0xC2 \<le> n0" and "n0 \<le> 0xDF"
  shows "utf8_run utf8_init [of_nat n0] = [0xFFFD]"
proof -
  let ?s1 = "utf8_init\<lparr>bytes_needed := 1, code_point := n0 mod 32\<rparr>"
  have l: "utf8_lead (of_nat n0) = ([], ?s1)"
    using assms(1,2) by (simp add: utf8_lead_nat)
  show ?thesis
    by (simp add: utf8_run_init_Cons l)
qed

lemma utf8_lead3:
  assumes "0xE0 \<le> n0" and "n0 \<le> 0xEF"
  shows "utf8_lead (of_nat n0) = ([], lead3 n0)"
  using assms by (simp add: utf8_lead_nat lead3_def)

lemma three_bytes_second:
  assumes "0xE0 \<le> n0" and "n0 \<le> 0xEF" and "0x80 \<le> n1" and "n1 \<le> 0xBF"
      and "n0 = 0xE0 \<longrightarrow> 0xA0 \<le> n1" and "n0 = 0xED \<longrightarrow> n1 \<le> 0x9F"
  shows "utf8_byte (lead3 n0) (of_nat n1) =
          ([], utf8_init\<lparr>bytes_needed := 2, code_point := n0 mod 16 * 64 + n1 mod 64,
                          bytes_seen := 1\<rparr>)"
  using assms by (subst utf8_cont_nat) (auto simp: lead3_def utf8_init_def)

lemma three_bytes_whole:
  assumes "0xE0 \<le> n0" and "n0 \<le> 0xEF" and "0x80 \<le> n1" and "n1 \<le> 0xBF"
      and "n0 = 0xE0 \<longrightarrow> 0xA0 \<le> n1" and "n0 = 0xED \<longrightarrow> n1 \<le> 0x9F"
      and "0x80 \<le> n2" and "n2 \<le> 0xBF"
  shows "utf8_run utf8_init (of_nat n0 # of_nat n1 # of_nat n2 # bs)
           = ((n0 mod 16 * 64 + n1 mod 64) * 64 + n2 mod 64) # utf8_run utf8_init bs"
proof -
  let ?s2 = "utf8_init\<lparr>bytes_needed := 2, code_point := n0 mod 16 * 64 + n1 mod 64,
                          bytes_seen := 1\<rparr>"
  have c: "utf8_byte ?s2 (of_nat n2) = ([(n0 mod 16 * 64 + n1 mod 64) * 64 + n2 mod 64], utf8_init)"
    using assms(7,8) by (subst utf8_cont_nat) (simp_all add: utf8_init_def)
  show ?thesis
    using utf8_lead3 [OF assms(1,2)] three_bytes_second [OF assms(1-6)] c
    by (simp add: utf8_run_init_Cons)
qed

lemma three_bytes_prefix:
  assumes "0xE0 \<le> n0" and "n0 \<le> 0xEF" and "0x80 \<le> n1" and "n1 \<le> 0xBF"
      and "n0 = 0xE0 \<longrightarrow> 0xA0 \<le> n1" and "n0 = 0xED \<longrightarrow> n1 \<le> 0x9F"
  shows "utf8_run utf8_init [of_nat n0] = [0xFFFD]"
    and "utf8_run utf8_init [of_nat n0, of_nat n1] = [0xFFFD]"
  using utf8_lead3 [OF assms(1,2)] three_bytes_second [OF assms(1-6)]
  by (simp_all add: utf8_run_init_Cons) (simp add: lead3_def utf8_init_def)

lemma utf8_lead4:
  assumes "0xF0 \<le> n0" and "n0 \<le> 0xF4"
  shows "utf8_lead (of_nat n0) = ([], lead4 n0)"
  using assms by (simp add: utf8_lead_nat lead4_def)

lemma four_bytes_second:
  assumes "0xF0 \<le> n0" and "n0 \<le> 0xF4" and "0x80 \<le> n1" and "n1 \<le> 0xBF"
      and "n0 = 0xF0 \<longrightarrow> 0x90 \<le> n1" and "n0 = 0xF4 \<longrightarrow> n1 \<le> 0x8F"
  shows "utf8_byte (lead4 n0) (of_nat n1) =
          ([], utf8_init\<lparr>bytes_needed := 3, code_point := n0 mod 8 * 64 + n1 mod 64,
                          bytes_seen := 1\<rparr>)"
  using assms by (subst utf8_cont_nat) (auto simp: lead4_def utf8_init_def)

lemma four_bytes_third:
  assumes "0x80 \<le> n2" and "n2 \<le> 0xBF"
  shows "utf8_byte (utf8_init\<lparr>bytes_needed := 3, code_point := c, bytes_seen := 1\<rparr>) (of_nat n2) =
          ([], utf8_init\<lparr>bytes_needed := 3, code_point := c * 64 + n2 mod 64, bytes_seen := 2\<rparr>)"
  using assms by (subst utf8_cont_nat) (auto simp: utf8_init_def)

lemma four_bytes_fourth:
  assumes "0x80 \<le> n3" and "n3 \<le> 0xBF"
  shows "utf8_byte (utf8_init\<lparr>bytes_needed := 3, code_point := c, bytes_seen := 2\<rparr>) (of_nat n3) =
          ([c * 64 + n3 mod 64], utf8_init)"
  using assms by (subst utf8_cont_nat) (auto simp: utf8_init_def)

lemma four_bytes_whole:
  assumes "0xF0 \<le> n0" and "n0 \<le> 0xF4" and "0x80 \<le> n1" and "n1 \<le> 0xBF"
      and "n0 = 0xF0 \<longrightarrow> 0x90 \<le> n1" and "n0 = 0xF4 \<longrightarrow> n1 \<le> 0x8F"
      and "0x80 \<le> n2" and "n2 \<le> 0xBF" and "0x80 \<le> n3" and "n3 \<le> 0xBF"
  shows "utf8_run utf8_init (of_nat n0 # of_nat n1 # of_nat n2 # of_nat n3 # bs)
           = (((n0 mod 8 * 64 + n1 mod 64) * 64 + n2 mod 64) * 64 + n3 mod 64)
             # utf8_run utf8_init bs"
  using utf8_lead4 [OF assms(1,2)] four_bytes_second [OF assms(1-6)]
    four_bytes_third [OF assms(7,8), of "n0 mod 8 * 64 + n1 mod 64"]
    four_bytes_fourth [OF assms(9,10), of "(n0 mod 8 * 64 + n1 mod 64) * 64 + n2 mod 64"]
  by (simp add: utf8_run_init_Cons)

lemma four_bytes_prefix:
  assumes "0xF0 \<le> n0" and "n0 \<le> 0xF4" and "0x80 \<le> n1" and "n1 \<le> 0xBF"
      and "n0 = 0xF0 \<longrightarrow> 0x90 \<le> n1" and "n0 = 0xF4 \<longrightarrow> n1 \<le> 0x8F"
      and "0x80 \<le> n2" and "n2 \<le> 0xBF"
  shows "utf8_run utf8_init [of_nat n0] = [0xFFFD]"
    and "utf8_run utf8_init [of_nat n0, of_nat n1] = [0xFFFD]"
    and "utf8_run utf8_init [of_nat n0, of_nat n1, of_nat n2] = [0xFFFD]"
  using utf8_lead4 [OF assms(1,2)] four_bytes_second [OF assms(1-6)]
    four_bytes_third [OF assms(7,8), of "n0 mod 8 * 64 + n1 mod 64"]
  by (simp_all add: utf8_run_init_Cons) (simp add: lead4_def utf8_init_def)

text \<open>The bytes of an encoded code point, with the facts the decoder checks.\<close>

lemma div_lt: "(a::nat) < k * m \<Longrightarrow> a div m < k"
  by (rule less_mult_imp_div_less)

lemma div_ge: "0 < m \<Longrightarrow> k * m \<le> a \<Longrightarrow> k \<le> (a::nat) div m"
  by (simp add: less_eq_div_iff_mult_less_eq)

lemma mod_offset: "x < m \<Longrightarrow> (k * m + x) mod m = (x::nat)"
  by simp

lemma encode_two:
  assumes "0x80 \<le> cp" and "cp < 0x800"
  obtains n0 n1 where "utf8_encode cp = [of_nat n0, of_nat n1]"
    and "0xC2 \<le> n0" and "n0 \<le> 0xDF" and "0x80 \<le> n1" and "n1 \<le> 0xBF"
    and "n0 mod 32 * 64 + n1 mod 64 = cp"
proof -
  define d1 where "d1 = cp div 64"
  define d0 where "d0 = cp mod 64"
  have cp: "cp = d1 * 64 + d0" by (simp add: d1_def d0_def)
  have d0: "d0 < 64" by (simp add: d0_def)
  have d1: "2 \<le> d1" "d1 < 32"
    using div_ge [of 64 2 cp] div_lt [of cp 32 64] assms by (simp_all add: d1_def)
  have m0: "(0xC0 + d1) mod 32 = d1" using mod_offset [of d1 32 6] d1 by simp
  have m1: "(0x80 + d0) mod 64 = d0" using mod_offset [of d0 64 2] d0 by simp
  show thesis
  proof (rule that [of "0xC0 + d1" "0x80 + d0"])
    show "utf8_encode cp = [of_nat (0xC0 + d1), of_nat (0x80 + d0)]"
      using assms by (simp add: utf8_encode_def d1_def d0_def)
    show "0xC2 \<le> 0xC0 + d1" "0xC0 + d1 \<le> 0xDF" "0x80 \<le> 0x80 + d0" "0x80 + d0 \<le> 0xBF"
      using d0 d1 by simp_all
    show "(0xC0 + d1) mod 32 * 64 + (0x80 + d0) mod 64 = cp"
      unfolding m0 m1 cp ..
  qed
qed

lemma encode_three:
  assumes "0x800 \<le> cp" and "cp < 0x10000" and "scalar_value cp"
  obtains n0 n1 n2 where "utf8_encode cp = [of_nat n0, of_nat n1, of_nat n2]"
    and "0xE0 \<le> n0" and "n0 \<le> 0xEF" and "0x80 \<le> n1" and "n1 \<le> 0xBF"
    and "n0 = 0xE0 \<longrightarrow> 0xA0 \<le> n1" and "n0 = 0xED \<longrightarrow> n1 \<le> 0x9F"
    and "0x80 \<le> n2" and "n2 \<le> 0xBF"
    and "(n0 mod 16 * 64 + n1 mod 64) * 64 + n2 mod 64 = cp"
proof -
  define e where "e = cp div 64"
  define d0 where "d0 = cp mod 64"
  define d2 where "d2 = e div 64"
  define d1 where "d1 = e mod 64"
  have cp: "cp = e * 64 + d0" by (simp add: e_def d0_def)
  have e: "e = d2 * 64 + d1" by (simp add: d2_def d1_def)
  have d0: "d0 < 64" by (simp add: d0_def)
  have d1: "d1 < 64" by (simp add: d1_def)
  have er: "32 \<le> e" "e < 1024"
    using div_ge [of 64 32 cp] div_lt [of cp 1024 64] assms by (simp_all add: e_def)
  have d2: "d2 < 16" using div_lt [of e 16 64] er by (simp add: d2_def)
  have hi: "cp div 0x1000 = d2"
    using div_mult2_eq [of cp 64 64] by (simp add: d2_def e_def)
  have low: "d2 = 0 \<longrightarrow> 32 \<le> d1" using e er by simp
  have sur: "d2 = 13 \<longrightarrow> d1 < 32"
  proof
    assume "d2 = 13"
    then have "cp \<le> 0xDFFF" using cp e d0 d1 by simp
    then have "cp < 0xD800" using assms(3) by (simp add: scalar_value_def)
    then show "d1 < 32" using cp e \<open>d2 = 13\<close> by simp
  qed
  have m0: "(0xE0 + d2) mod 16 = d2" using mod_offset [of d2 16 14] d2 by simp
  have m1: "(0x80 + d1) mod 64 = d1" using mod_offset [of d1 64 2] d1 by simp
  have m2: "(0x80 + d0) mod 64 = d0" using mod_offset [of d0 64 2] d0 by simp
  show thesis
  proof (rule that [of "0xE0 + d2" "0x80 + d1" "0x80 + d0"])
    show "utf8_encode cp = [of_nat (0xE0 + d2), of_nat (0x80 + d1), of_nat (0x80 + d0)]"
      using assms(1,2) hi by (simp add: utf8_encode_def d1_def d0_def e_def)
    show "0xE0 \<le> 0xE0 + d2" "0xE0 + d2 \<le> 0xEF" "0x80 \<le> 0x80 + d1" "0x80 + d1 \<le> 0xBF"
      "0x80 \<le> 0x80 + d0" "0x80 + d0 \<le> 0xBF"
      using d0 d1 d2 by simp_all
    show "0xE0 + d2 = 0xE0 \<longrightarrow> 0xA0 \<le> 0x80 + d1" using low by simp
    show "0xE0 + d2 = 0xED \<longrightarrow> 0x80 + d1 \<le> 0x9F" using sur by auto
    show "((0xE0 + d2) mod 16 * 64 + (0x80 + d1) mod 64) * 64 + (0x80 + d0) mod 64 = cp"
      unfolding m0 m1 m2 cp e ..
  qed
qed

lemma encode_four:
  assumes "0x10000 \<le> cp" and "cp < 0x110000"
  obtains n0 n1 n2 n3 where "utf8_encode cp = [of_nat n0, of_nat n1, of_nat n2, of_nat n3]"
    and "0xF0 \<le> n0" and "n0 \<le> 0xF4" and "0x80 \<le> n1" and "n1 \<le> 0xBF"
    and "n0 = 0xF0 \<longrightarrow> 0x90 \<le> n1" and "n0 = 0xF4 \<longrightarrow> n1 \<le> 0x8F"
    and "0x80 \<le> n2" and "n2 \<le> 0xBF" and "0x80 \<le> n3" and "n3 \<le> 0xBF"
    and "((n0 mod 8 * 64 + n1 mod 64) * 64 + n2 mod 64) * 64 + n3 mod 64 = cp"
proof -
  define f where "f = cp div 64"
  define d0 where "d0 = cp mod 64"
  define g where "g = f div 64"
  define d1 where "d1 = f mod 64"
  define d3 where "d3 = g div 64"
  define d2 where "d2 = g mod 64"
  have cp: "cp = f * 64 + d0" by (simp add: f_def d0_def)
  have f: "f = g * 64 + d1" by (simp add: g_def d1_def)
  have g: "g = d3 * 64 + d2" by (simp add: d3_def d2_def)
  have d0: "d0 < 64" by (simp add: d0_def)
  have d1: "d1 < 64" by (simp add: d1_def)
  have d2: "d2 < 64" by (simp add: d2_def)
  have fr: "1024 \<le> f" "f < 17408"
    using div_ge [of 64 1024 cp] div_lt [of cp 17408 64] assms by (simp_all add: f_def)
  have gr: "16 \<le> g" "g < 272"
    using div_ge [of 64 16 f] div_lt [of f 272 64] fr by (simp_all add: g_def)
  have d3: "d3 < 5" using div_lt [of g 5 64] gr by (simp add: d3_def)
  have hi1: "cp div 0x1000 = g"
    using div_mult2_eq [of cp 64 64] by (simp add: g_def f_def)
  have hi2: "cp div 0x40000 = d3"
    using div_mult2_eq [of cp 4096 64] hi1 by (simp add: d3_def)
  have low: "d3 = 0 \<longrightarrow> 16 \<le> d2" using g gr by simp
  have top: "d3 = 4 \<longrightarrow> d2 < 16" using g gr by simp
  have m0: "(0xF0 + d3) mod 8 = d3" using mod_offset [of d3 8 30] d3 by simp
  have m1: "(0x80 + d2) mod 64 = d2" using mod_offset [of d2 64 2] d2 by simp
  have m2: "(0x80 + d1) mod 64 = d1" using mod_offset [of d1 64 2] d1 by simp
  have m3: "(0x80 + d0) mod 64 = d0" using mod_offset [of d0 64 2] d0 by simp
  show thesis
  proof (rule that [of "0xF0 + d3" "0x80 + d2" "0x80 + d1" "0x80 + d0"])
    show "utf8_encode cp =
        [of_nat (0xF0 + d3), of_nat (0x80 + d2), of_nat (0x80 + d1), of_nat (0x80 + d0)]"
      using assms(1) hi1 hi2 by (simp add: utf8_encode_def d2_def d1_def d0_def f_def)
    show "0xF0 \<le> 0xF0 + d3" "0xF0 + d3 \<le> 0xF4" "0x80 \<le> 0x80 + d2" "0x80 + d2 \<le> 0xBF"
      "0x80 \<le> 0x80 + d1" "0x80 + d1 \<le> 0xBF" "0x80 \<le> 0x80 + d0" "0x80 + d0 \<le> 0xBF"
      using d0 d1 d2 d3 by simp_all
    show "0xF0 + d3 = 0xF0 \<longrightarrow> 0x90 \<le> 0x80 + d2" using low by simp
    show "0xF0 + d3 = 0xF4 \<longrightarrow> 0x80 + d2 \<le> 0x8F" using top by auto
    show "(((0xF0 + d3) mod 8 * 64 + (0x80 + d2) mod 64) * 64 + (0x80 + d1) mod 64) * 64
            + (0x80 + d0) mod 64 = cp"
      unfolding m0 m1 m2 m3 cp f g ..
  qed
qed

lemma ascii_run:
  assumes "\<forall>b\<in>set pre. b \<le> 0x7F"
  shows "utf8_run utf8_init (pre @ bs) = map unat pre @ utf8_run utf8_init bs"
  using assms by (induction pre) (simp_all add: utf8_run_init_Cons utf8_lead_def)

lemma ascii_run_all:
  "\<forall>b\<in>set bs. b \<le> 0x7F \<Longrightarrow> utf8_run utf8_init bs = map unat bs"
  using ascii_run [of bs "[]"] by (simp add: utf8_init_def)

lemma scalar_cases:
  assumes "scalar_value cp" and "0x80 \<le> cp"
  obtains "cp < 0x800" | "0x800 \<le> cp" "cp < 0x10000" | "0x10000 \<le> cp" "cp < 0x110000"
  using assms unfolding scalar_value_def by linarith

lemma run_encoded:
  assumes "scalar_value cp" and "0x80 \<le> cp"
  shows "utf8_run utf8_init (utf8_encode cp @ bs) = cp # utf8_run utf8_init bs"
  using assms
proof (cases rule: scalar_cases)
  case 1
  from assms(2) 1 obtain n0 n1 where "utf8_encode cp = [of_nat n0, of_nat n1]"
    and "0xC2 \<le> n0" "n0 \<le> 0xDF" "0x80 \<le> n1" "n1 \<le> 0xBF"
    and "n0 mod 32 * 64 + n1 mod 64 = cp"
    by (rule encode_two)
  then show ?thesis by (simp add: two_bytes_whole del: utf8_run.simps)
next
  case 2
  from 2 assms(1) obtain n0 n1 n2 where "utf8_encode cp = [of_nat n0, of_nat n1, of_nat n2]"
    and "0xE0 \<le> n0" "n0 \<le> 0xEF" "0x80 \<le> n1" "n1 \<le> 0xBF"
      "n0 = 0xE0 \<longrightarrow> 0xA0 \<le> n1" "n0 = 0xED \<longrightarrow> n1 \<le> 0x9F" "0x80 \<le> n2" "n2 \<le> 0xBF"
    and "(n0 mod 16 * 64 + n1 mod 64) * 64 + n2 mod 64 = cp"
    by (rule encode_three)
  then show ?thesis by (simp add: three_bytes_whole del: utf8_run.simps)
next
  case 3
  from 3 obtain n0 n1 n2 n3 where
    "utf8_encode cp = [of_nat n0, of_nat n1, of_nat n2, of_nat n3]"
    and "0xF0 \<le> n0" "n0 \<le> 0xF4" "0x80 \<le> n1" "n1 \<le> 0xBF"
      "n0 = 0xF0 \<longrightarrow> 0x90 \<le> n1" "n0 = 0xF4 \<longrightarrow> n1 \<le> 0x8F"
      "0x80 \<le> n2" "n2 \<le> 0xBF" "0x80 \<le> n3" "n3 \<le> 0xBF"
    and "((n0 mod 8 * 64 + n1 mod 64) * 64 + n2 mod 64) * 64 + n3 mod 64 = cp"
    by (rule encode_four)
  then show ?thesis by (simp add: four_bytes_whole del: utf8_run.simps)
qed

lemma run_split:
  assumes "scalar_value cp" and "0x80 \<le> cp" and "0 < k" and "k < length (utf8_encode cp)"
  shows "utf8_run utf8_init (take k (utf8_encode cp)) = [0xFFFD]"
    and "utf8_run utf8_init (drop k (utf8_encode cp) @ bs)
           = replicate (length (utf8_encode cp) - k) 0xFFFD @ utf8_run utf8_init bs"
proof -
  have "utf8_run utf8_init (take k (utf8_encode cp)) = [0xFFFD]
      \<and> utf8_run utf8_init (drop k (utf8_encode cp) @ bs)
           = replicate (length (utf8_encode cp) - k) 0xFFFD @ utf8_run utf8_init bs"
    using assms(1,2)
  proof (cases rule: scalar_cases)
    case 1
    from assms(2) 1 obtain n0 n1 where enc: "utf8_encode cp = [of_nat n0, of_nat n1]"
      and r: "0xC2 \<le> n0" "n0 \<le> 0xDF" "0x80 \<le> n1" "n1 \<le> 0xBF"
      by (rule encode_two)
    from assms(3,4) have k: "k = 1" by (simp add: enc)
    show ?thesis
      unfolding enc k using r
      by (simp add: two_bytes_prefix continuation_in_init del: utf8_run.simps)
  next
    case 2
    from 2 assms(1) obtain n0 n1 n2 where enc: "utf8_encode cp = [of_nat n0, of_nat n1, of_nat n2]"
      and r: "0xE0 \<le> n0" "n0 \<le> 0xEF" "0x80 \<le> n1" "n1 \<le> 0xBF"
        "n0 = 0xE0 \<longrightarrow> 0xA0 \<le> n1" "n0 = 0xED \<longrightarrow> n1 \<le> 0x9F" "0x80 \<le> n2" "n2 \<le> 0xBF"
      by (rule encode_three)
    from assms(3,4) have k: "k = 1 \<or> k = 2" by (auto simp: enc)
    have p: "utf8_run utf8_init [of_nat n0] = [0xFFFD]"
      "utf8_run utf8_init [of_nat n0, of_nat n1] = [0xFFFD]"
      using r(1-6) by (rule three_bytes_prefix)+
    from k show ?thesis
    proof
      assume "k = 1"
      then show ?thesis
        unfolding enc using r(3,4,7,8)
        by (simp add: p continuation_in_init del: utf8_run.simps)
    next
      assume "k = 2"
      then have k': "k = Suc (Suc 0)" by simp
      show ?thesis
        unfolding enc k' using r(7,8)
        by (simp add: p continuation_in_init del: utf8_run.simps)
    qed
  next
    case 3
    from 3 obtain n0 n1 n2 n3 where
      enc: "utf8_encode cp = [of_nat n0, of_nat n1, of_nat n2, of_nat n3]"
      and r: "0xF0 \<le> n0" "n0 \<le> 0xF4" "0x80 \<le> n1" "n1 \<le> 0xBF"
        "n0 = 0xF0 \<longrightarrow> 0x90 \<le> n1" "n0 = 0xF4 \<longrightarrow> n1 \<le> 0x8F"
        "0x80 \<le> n2" "n2 \<le> 0xBF" "0x80 \<le> n3" "n3 \<le> 0xBF"
      by (rule encode_four)
    from assms(3,4) have k: "k = 1 \<or> k = 2 \<or> k = 3" by (auto simp: enc)
    have p: "utf8_run utf8_init [of_nat n0] = [0xFFFD]"
      "utf8_run utf8_init [of_nat n0, of_nat n1] = [0xFFFD]"
      "utf8_run utf8_init [of_nat n0, of_nat n1, of_nat n2] = [0xFFFD]"
      using r(1-8) by (rule four_bytes_prefix)+
    from k show ?thesis
    proof (elim disjE)
      assume "k = 1"
      then show ?thesis
        unfolding enc using r(3,4,7-10)
        by (simp add: p continuation_in_init del: utf8_run.simps)
    next
      assume "k = 2"
      then have k': "k = Suc (Suc 0)" by simp
      show ?thesis
        unfolding enc k' using r(7-10)
        by (simp add: p continuation_in_init del: utf8_run.simps)
    next
      assume "k = 3"
      then have k': "k = Suc (Suc (Suc 0))" by simp
      show ?thesis
        unfolding enc k' using r(9,10)
        by (simp add: p continuation_in_init del: utf8_run.simps)
    qed
  qed
  then show "utf8_run utf8_init (take k (utf8_encode cp)) = [0xFFFD]"
    and "utf8_run utf8_init (drop k (utf8_encode cp) @ bs)
           = replicate (length (utf8_encode cp) - k) 0xFFFD @ utf8_run utf8_init bs"
    by simp_all
qed

lemma strip_bom_id: "xs = [] \<or> hd xs \<noteq> 0xFEFF \<Longrightarrow> strip_bom xs = xs"
  by (cases xs) (simp_all add: strip_bom_def)

lemma utf16_byte: "utf16 (unat (b :: byte)) = [ucast b]"
proof -
  have "unat b < 256" using unsigned_less [of b] by simp
  then show ?thesis by (simp add: utf16_def)
qed

lemma concat_utf16_bytes: "concat (map (utf16 \<circ> unat) (bs :: byte list)) = map ucast bs"
  by (induction bs) (simp_all add: utf16_byte)

lemma concat_utf16_replicate:
  "concat (replicate n (utf16 0xFFFD)) = replicate n 0xFFFD"
  by (induction n) (simp_all add: utf16_def)

lemma hd_map_unat_byte: "pre \<noteq> [] \<Longrightarrow> hd (map unat (pre :: byte list)) \<noteq> 0xFEFF"
proof -
  assume "pre \<noteq> []"
  then obtain b bs where "pre = b # bs" by (cases pre) auto
  moreover have "unat b < 256" using unsigned_less [of b] by simp
  ultimately show ?thesis by simp
qed

lemma ascii_byte_le: "of_char c < (128::nat) \<Longrightarrow> (of_nat (of_char c) :: byte) \<le> 0x7F"
  using byte_le_of_nat [of "of_char c" 127] by simp

lemma ucast_ascii_byte: "(ucast (of_nat (of_char c) :: byte) :: 16 word) = of_nat (of_char c)"
proof -
  have "unat (of_nat (of_char c) :: byte) = of_char c"
    by (rule unat_byte_of_nat) simp
  then show ?thesis
    by (metis of_nat_unat)
qed

lemma text_decode_ascii:
  assumes "\<forall>c\<in>set s. of_char c < (128::nat)"
  shows "text_decode (ascii s) = js s"
proof -
  have le: "\<forall>b\<in>set (ascii s). b \<le> 0x7F"
    using assms by (auto simp: ascii_def ascii_byte_le)
  have r: "utf8_run utf8_init (ascii s) = map unat (ascii s)"
    using le by (rule ascii_run_all)
  have "hd (map unat (ascii s)) \<noteq> 0xFEFF" if "ascii s \<noteq> []"
    using that by (rule hd_map_unat_byte)
  then have "strip_bom (map unat (ascii s)) = map unat (ascii s)"
    by (intro strip_bom_id) auto
  then have "text_decode (ascii s) = map ucast (ascii s)"
    by (simp add: text_decode_def r concat_utf16_bytes)
  also have "\<dots> = js s"
    by (simp add: ascii_def js_def ucast_ascii_byte)
  finally show ?thesis .
qed

text \<open>
  C3, as stated, fails: the two bytes of U+00E9, delivered in two chunks, decode to two
  replacement characters; delivered in one chunk they decode to the character.
\<close>

theorem split_character_is_garbled:
  "map text_decode [[0xC3], [0xA9]] = [[0xFFFD], [0xFFFD]] \<and> text_decode [0xC3, 0xA9] = [0xE9]"
  by (simp add: text_decode_def utf8_byte_def utf8_lead_def utf8_init_def strip_bom_def utf16_def)

text \<open>
  C3, amended. Every chunk is decoded on its own. For a character of two to four bytes
  inside ASCII text: when the chunk ends after the first \<open>k\<close> bytes of the character, these
  decode to one U+FFFD, and each remaining byte, at the start of the next chunk, decodes to
  one more; when all bytes of the character are in one chunk, it decodes to the character
  (a U+FEFF at the very start of a chunk apart, which is dropped as a byte order mark).
\<close>

theorem split_character_decodes_to_replacements:
  assumes "scalar_value cp" and "0x80 \<le> cp" and "0 < k" and "k < length (utf8_encode cp)"
      and "\<forall>b\<in>set pre. b \<le> 0x7F" and "\<forall>b\<in>set post. b \<le> 0x7F"
  shows "text_decode (pre @ take k (utf8_encode cp)) = map ucast pre @ [0xFFFD]
       \<and> text_decode (drop k (utf8_encode cp) @ post)
           = replicate (length (utf8_encode cp) - k) 0xFFFD @ map ucast post
       \<and> (pre \<noteq> [] \<or> cp \<noteq> 0xFEFF \<longrightarrow>
            text_decode (pre @ utf8_encode cp @ post) = map ucast pre @ utf16 cp @ map ucast post)"
proof (intro conjI impI)
  have r1: "utf8_run utf8_init (pre @ take k (utf8_encode cp)) = map unat pre @ [0xFFFD]"
    by (simp add: ascii_run [OF assms(5)] run_split(1) [OF assms(1-4)] del: utf8_run.simps)
  have "hd (map unat pre @ [0xFFFD]) \<noteq> 0xFEFF"
    using hd_map_unat_byte [of pre] by (cases "pre = []") (simp_all add: hd_append)
  then have "strip_bom (map unat pre @ [0xFFFD]) = map unat pre @ [0xFFFD]"
    by (simp add: strip_bom_id)
  then show "text_decode (pre @ take k (utf8_encode cp)) = map ucast pre @ [0xFFFD]"
    by (simp add: text_decode_def r1 concat_utf16_bytes) (simp add: utf16_def)
next
  let ?n = "length (utf8_encode cp) - k"
  have n: "0 < ?n" using assms(4) by simp
  have r2: "utf8_run utf8_init (drop k (utf8_encode cp) @ post)
        = replicate ?n 0xFFFD @ map unat post"
    by (simp add: run_split(2) [OF assms(1-4)] ascii_run_all [OF assms(6)] del: utf8_run.simps)
  have "hd (replicate ?n 0xFFFD @ map unat post) \<noteq> (0xFEFF::nat)"
    using n by (cases ?n) simp_all
  then have "strip_bom (replicate ?n 0xFFFD @ map unat post) = replicate ?n 0xFFFD @ map unat post"
    by (simp add: strip_bom_id)
  then show "text_decode (drop k (utf8_encode cp) @ post) = replicate ?n 0xFFFD @ map ucast post"
    by (simp add: text_decode_def r2 concat_utf16_bytes concat_utf16_replicate)
next
  assume a: "pre \<noteq> [] \<or> cp \<noteq> 0xFEFF"
  have r3: "utf8_run utf8_init (pre @ utf8_encode cp @ post) = map unat pre @ cp # map unat post"
    by (simp add: ascii_run [OF assms(5)] run_encoded [OF assms(1,2)] ascii_run_all [OF assms(6)]
        del: utf8_run.simps)
  have "hd (map unat pre @ cp # map unat post) \<noteq> 0xFEFF"
    using a hd_map_unat_byte [of pre] by (cases "pre = []") (simp_all add: hd_append)
  then have "strip_bom (map unat pre @ cp # map unat post) = map unat pre @ cp # map unat post"
    by (simp add: strip_bom_id)
  then show "text_decode (pre @ utf8_encode cp @ post) = map ucast pre @ utf16 cp @ map ucast post"
    by (simp add: text_decode_def r3 concat_utf16_bytes)
qed

lemma encode_e_acute: "utf8_encode 0xE9 = [0xC3, 0xA9]"
  by (simp add: utf8_encode_def)

theorem split_character_decodes_to_replacements_witness:
  "text_decode (ascii ''caf'' @ [0xC3]) = js ''caf'' @ [0xFFFD]
   \<and> text_decode ([0xA9] @ ascii ''!'') = [0xFFFD] @ js ''!''
   \<and> text_decode (ascii ''caf'' @ [0xC3, 0xA9] @ ascii ''!'') = js ''caf'' @ [0xE9] @ js ''!''"
  using split_character_decodes_to_replacements [of "0xE9" 1 "ascii ''caf''" "ascii ''!''"]
  by (simp add: encode_e_acute scalar_value_def ascii_def js_def utf16_def)

subsection \<open>A record split between two chunks\<close>

text \<open>
  C2, as stated, fails: the two parts of a record are handled as two lines, none of which is
  an event, and the content stays empty; the same bytes in one chunk give the content
  \<^verbatim>\<open>A\<close>.
\<close>

theorem split_record_is_lost:
  \<open>content (heap (fold (process_chunk json_env 1)
       [ascii ''data: {"type":"token","con'', ascii ''tent":"A"}\<newline>''] (snd streaming)) 1) = []
   \<and> content (heap (process_chunk json_env 1
       (ascii ''data: {"type":"token","content":"A"}\<newline>'') (snd streaming)) 1) = js ''A''\<close>
proof -
  have d1: \<open>text_decode (ascii ''data: {"type":"token","con'') = js ''data: {"type":"token","con''\<close>
    by (rule text_decode_ascii) simp
  have d2: \<open>text_decode (ascii ''tent":"A"}\<newline>'') = js ''tent":"A"}\<newline>''\<close>
    by (rule text_decode_ascii) simp
  have d3: \<open>text_decode (ascii ''data: {"type":"token","content":"A"}\<newline>'')
      = js ''data: {"type":"token","content":"A"}\<newline>''\<close>
    by (rule text_decode_ascii) simp
  have s1: \<open>split_nl (js ''data: {"type":"token","con'') = [js ''data: {"type":"token","con'']\<close>
    by (simp add: js_def)
  have s2: \<open>split_nl (js ''tent":"A"}\<newline>'') = [js ''tent":"A"}'', []]\<close>
    by (simp add: js_def)
  have s3: \<open>split_nl (js ''data: {"type":"token","content":"A"}\<newline>'')
      = [js ''data: {"type":"token","content":"A"}'', []]\<close>
    by (simp add: js_def)
  have a: \<open>fold (process_chunk json_env 1)
       [ascii ''data: {"type":"token","con'', ascii ''tent":"A"}\<newline>''] (snd streaming)
       = snd streaming\<close>
    by (simp add: process_chunk_def d1 d2 s1 s2 empty_line_skipped
        handle_line_skip [OF ex_head] handle_line_skip [OF ex_tail])
  have b: \<open>process_chunk json_env 1
       (ascii ''data: {"type":"token","content":"A"}\<newline>'') (snd streaming)
       = apply_event json_env 1 (Token (Str (js ''A''))) (snd streaming)\<close>
    by (simp add: process_chunk_def d3 s3 empty_line_skipped handle_line_token [OF ex_token_A]
        del: apply_event.simps)
  show ?thesis
    unfolding a b by (simp add: content_after_token streaming_eq del: apply_event.simps)
qed

text \<open>
  C2, amended. Every chunk is split at its newlines on its own, and every piece is handled
  at once as a line, the text after the last newline of the chunk included: nothing is kept
  for the next chunk. Of a chunk that ends with the unterminated text \<open>p\<close> and a next chunk
  that begins with the text \<open>q\<close> up to its first newline, \<open>p\<close> and \<open>q\<close> are handled as two
  lines.
\<close>

theorem chunk_lines_not_buffered:
  assumes "0x0A \<notin> set p" and "0x0A \<notin> set q"
      and "text_decode v1 = a @ 0x0A # p" and "text_decode v2 = q @ 0x0A # b"
  shows "fold (process_chunk env am) [v1, v2] st =
           fold (handle_line env am) (split_nl a @ [p, q] @ split_nl b) st"
  by (simp add: process_chunk_def assms split_nl_at_newline split_nl_no_newline
      split_nl_append_no_newline)

theorem chunk_lines_not_buffered_witness:
  \<open>fold (process_chunk json_env 1)
     [ascii ''data: {"type":"token","content":"A"}\<newline>data: {"type":"token","con'',
      ascii ''tent":"B"}\<newline>''] (snd streaming)
   = fold (handle_line json_env 1)
       [js ''data: {"type":"token","content":"A"}'', js ''data: {"type":"token","con'',
        js ''tent":"B"}'', []] (snd streaming)\<close>
proof -
  have d1: \<open>text_decode
      (ascii ''data: {"type":"token","content":"A"}\<newline>data: {"type":"token","con'')
      = js ''data: {"type":"token","content":"A"}'' @ 0x0A # js ''data: {"type":"token","con''\<close>
    by (subst text_decode_ascii) (simp_all add: js_def)
  have d2: \<open>text_decode (ascii ''tent":"B"}\<newline>'') = js ''tent":"B"}'' @ 0x0A # []\<close>
    by (subst text_decode_ascii) (simp_all add: js_def)
  have n1: \<open>0x0A \<notin> set (js ''data: {"type":"token","con'')\<close>
    and n2: \<open>0x0A \<notin> set (js ''tent":"B"}'')\<close>
    by (simp_all add: js_def)
  have s: \<open>split_nl (js ''data: {"type":"token","content":"A"}'')
      = [js ''data: {"type":"token","content":"A"}'']\<close>
    by (rule split_nl_no_newline) (simp add: js_def)
  show ?thesis
    using chunk_lines_not_buffered [OF n1 n2 d1 d2, of json_env 1 "snd streaming"]
    by (simp only: s split_nl.simps append_Cons append_Nil)
qed

subsection \<open>The handler from submission to return\<close>

text \<open>
  The renders change the array only: the objects of the store after the loop are those that
  the lines of the chunks give, whenever React renders.
\<close>

lemma heap_handle_line_cong:
  assumes "heap st = heap st'"
  shows "heap (handle_line env am l st) = heap (handle_line env am l st')"
proof (cases "parse_event env l")
  case None
  then show ?thesis using assms by (simp add: handle_line_def)
next
  case (Some ev)
  have "heap (apply_event env am ev st) = heap (apply_event env am ev st')"
    by (cases ev) (simp_all add: heap_publish assms split: option.splits)
  then show ?thesis by (simp add: handle_line_def Some)
qed

lemma heap_fold_lines_cong:
  "heap st = heap st' \<Longrightarrow>
     heap (fold (handle_line env am) ls st) = heap (fold (handle_line env am) ls st')"
proof (induction ls arbitrary: st st')
  case Nil
  then show ?case by simp
next
  case (Cons l ls)
  have "heap (handle_line env am l st) = heap (handle_line env am l st')"
    using Cons.prems by (rule heap_handle_line_cong)
  then have "heap (fold (handle_line env am) ls (handle_line env am l st))
      = heap (fold (handle_line env am) ls (handle_line env am l st'))"
    by (rule Cons.IH)
  then show ?case by simp
qed

lemma heap_fold_chunks_cong:
  "heap st = heap st' \<Longrightarrow>
     heap (fold (process_chunk env am) chunks st) = heap (fold (process_chunk env am) chunks st')"
proof (induction chunks arbitrary: st st')
  case Nil
  then show ?case by simp
next
  case (Cons v chunks)
  have "heap (process_chunk env am v st) = heap (process_chunk env am v st')"
    unfolding process_chunk_def using Cons.prems by (rule heap_fold_lines_cong)
  then have "heap (fold (process_chunk env am) chunks (process_chunk env am v st))
      = heap (fold (process_chunk env am) chunks (process_chunk env am v st'))"
    by (rule Cons.IH)
  then show ?case by simp
qed

lemma heap_suspend: "heap (suspend env k st) = heap st"
  by (simp add: suspend_def)

lemma heap_read_loop:
  "heap (read_loop env am k chunks st) = heap (fold (process_chunk env am) chunks st)"
proof (induction chunks arbitrary: k st)
  case Nil
  show ?case by (simp add: heap_suspend)
next
  case (Cons v chunks)
  have "heap (process_chunk env am v (suspend env k st)) = heap (process_chunk env am v st)"
    using heap_fold_chunks_cong [of "suspend env k st" st env am "[v]"]
    by (simp add: heap_suspend)
  then have "heap (fold (process_chunk env am) chunks (process_chunk env am v (suspend env k st)))
      = heap (fold (process_chunk env am) chunks (process_chunk env am v st))"
    by (rule heap_fold_chunks_cong)
  then show ?case by (simp add: Cons.IH)
qed

lemma renders_at_json_env: "renders_at json_env k"
  by (simp add: json_env_def)

lemma streaming_begin:
  "begin_stream (suspend json_env 0 (accept_submit (mounted (js ''hi'')))) = (1, snd streaming)"
  by (simp add: streaming_def [symmetric]) (simp add: streaming_eq)

lemma handleSubmit_hi:
  "handleSubmit json_env (Body chunks None) (mounted (js ''hi'')) =
     (render ((read_loop json_env 1 1 chunks (snd streaming))\<lparr>loading := False\<rparr>),
      [\<lparr>query = js ''hi'', req_collection = js ''default'',
        conversation_id = js ''k3x9q0a7z'', use_rag = True\<rparr>])"
proof -
  have g: "\<not> (js_trim (input (mounted (js ''hi''))) = [] \<or> loading (mounted (js ''hi'')))"
    by (simp add: mounted_def js_trim_def js_def js_whitespace_def)
  have r: "run_request json_env (Body chunks None) (accept_submit (mounted (js ''hi'')))
      = read_loop json_env 1 1 chunks (snd streaming)"
    by (simp add: run_request_def streaming_begin)
  have c: "input (mounted (js ''hi'')) = js ''hi''" "collection (mounted (js ''hi'')) = js ''default''"
    "conversationId (mounted (js ''hi'')) = js ''k3x9q0a7z''"
    by (simp_all add: mounted_def)
  show ?thesis
    using g by (simp add: handleSubmit_def r c)
qed

lemma read_one_chunk:
  "read_loop json_env am k [v] st
     = render (fold (handle_line json_env am) (split_nl (text_decode v)) (render st))"
  by (simp add: suspend_def renders_at_json_env process_chunk_def)

text \<open>
  A stream whose only event is a Sources event: when the handler has returned, the
  placeholder in the array carries the sources, although no Token or Error line has arrived.
\<close>

lemma sources_only_stream_shows_sources:
  \<open>map sources (snapshot (fst (handleSubmit json_env
      (Body [ascii ''data: {"type":"sources","sources":[{"source":"a.pdf"}]}\<newline>''] None)
      (mounted (js ''hi'')))))
   = [Undefined, Arr [Obj [(js ''source'', Str (js ''a.pdf''))]]]\<close>
proof -
  have d: \<open>text_decode (ascii ''data: {"type":"sources","sources":[{"source":"a.pdf"}]}\<newline>'')
      = js ''data: {"type":"sources","sources":[{"source":"a.pdf"}]}\<newline>''\<close>
    by (rule text_decode_ascii) simp
  have s: \<open>split_nl (js ''data: {"type":"sources","sources":[{"source":"a.pdf"}]}\<newline>'')
      = [js ''data: {"type":"sources","sources":[{"source":"a.pdf"}]}'', []]\<close>
    by (simp add: js_def)
  show ?thesis
    unfolding handleSubmit_hi read_one_chunk d s
    by (simp add: empty_line_skipped handle_line_token [OF ex_sources] snapshot_def render_def
        streaming_eq)
qed

text \<open>
  A token line and a Sources line in one chunk: the render that follows the chunk copies the
  in-progress object with its sources, and no Token or Error line arrives after them.
\<close>

lemma token_then_sources_in_one_chunk:
  \<open>map (\<lambda>m. (content m, sources m)) (snapshot (fst (handleSubmit json_env
      (Body [ascii ''data: {"type":"token","content":"A"}\<newline>data: {"type":"sources","sources":[{"source":"a.pdf"}]}\<newline>''] None)
      (mounted (js ''hi'')))))
   = [(js ''hi'', Undefined), (js ''A'', Arr [Obj [(js ''source'', Str (js ''a.pdf''))]])]\<close>
proof -
  have d: \<open>text_decode (ascii ''data: {"type":"token","content":"A"}\<newline>data: {"type":"sources","sources":[{"source":"a.pdf"}]}\<newline>'')
      = js ''data: {"type":"token","content":"A"}\<newline>data: {"type":"sources","sources":[{"source":"a.pdf"}]}\<newline>''\<close>
    by (rule text_decode_ascii) simp
  have s: \<open>split_nl (js ''data: {"type":"token","content":"A"}\<newline>data: {"type":"sources","sources":[{"source":"a.pdf"}]}\<newline>'')
      = [js ''data: {"type":"token","content":"A"}'',
         js ''data: {"type":"sources","sources":[{"source":"a.pdf"}]}'', []]\<close>
    by (simp add: js_def)
  show ?thesis
    unfolding handleSubmit_hi read_one_chunk d s
    by (simp add: empty_line_skipped handle_line_token [OF ex_sources]
        handle_line_token [OF ex_token_A] snapshot_def render_def publish_def replace_last_def
        streaming_eq)
qed

end
